theory Spec2Isabelle
  imports Main
begin

section \<open>Python values and syntax-tree objects\<close>

text \<open>
  The script \<^verbatim>\<open>astvisualizer.py\<close> reads a tree of \<^verbatim>\<open>ast.AST\<close> objects. An object is
  modelled by its identity (what \<^verbatim>\<open>id(node)\<close> returns), its class name
  (\<^verbatim>\<open>type(node).__name__\<close>) and the pairs that \<^verbatim>\<open>ast.iter_fields(node)\<close> yields, in that
  order, each field name once. A field holds another object, a Python list, or a
  constant. An object that is referenced from two places occurs twice in the term, with
  the same identity; \<open>consistent\<close> below says that entries with one identity are one
  object.

  Constants other than \<^verbatim>\<open>str\<close>, \<^verbatim>\<open>int\<close>, \<^verbatim>\<open>bool\<close> and \<^verbatim>\<open>None\<close> (floats, complex numbers,
  bytes, \<^verbatim>\<open>Ellipsis\<close>) are kept as \<open>POther\<close> with their type name and the text that
  \<^verbatim>\<open>str()\<close> gives for them. An element of a \<open>string\<close> stands for one character of the
  Python \<^verbatim>\<open>str\<close>.
\<close>

datatype pyobj =
    Node (ident: nat) (cls: string) (fields: "(string \<times> pyobj) list")
  | PList "pyobj list"
  | PStr string
  | PInt int
  | PBool bool
  | PNone
  | POther string string

text \<open>
  Failures of the script are values. \<open>RecursionError\<close> is what the interpreter raises
  when calls nest deeper than its recursion limit. \<open>ValueError\<close> is what \<^verbatim>\<open>str()\<close> raises
  for an integer of more than 4300 decimal digits. \<open>NotModelled\<close> marks the places where
  the script goes on with a value that this model does not determine (the default text of
  an object, which holds its address; length or truth of a \<open>POther\<close> constant); no tree
  that \<^verbatim>\<open>ast.parse\<close> returns reaches them.
\<close>

datatype py_error =
  AttributeError | TypeError | IndexError | ValueError | RecursionError | NotModelled

definition bind_err :: "py_error + 'a \<Rightarrow> ('a \<Rightarrow> py_error + 'b) \<Rightarrow> py_error + 'b" where
  "bind_err m k = (case m of Inl e \<Rightarrow> Inl e | Inr v \<Rightarrow> k v)"

definition is_ast :: "pyobj \<Rightarrow> bool" where
  "is_ast v = (case v of Node i c fs \<Rightarrow> True | _ \<Rightarrow> False)"

text \<open>\<^verbatim>\<open>isinstance(v, ast.K)\<close>, for the classes the parser instantiates.\<close>

definition isinstance :: "pyobj \<Rightarrow> string \<Rightarrow> bool" where
  "isinstance v k = (case v of Node i c fs \<Rightarrow> c = k | _ \<Rightarrow> False)"

text \<open>\<^verbatim>\<open>v.a\<close> for the field names the script reads.\<close>

definition getattr :: "pyobj \<Rightarrow> string \<Rightarrow> py_error + pyobj" where
  "getattr v a =
     (case v of
        Node i c fs \<Rightarrow> (case map_of fs a of Some x \<Rightarrow> Inr x | None \<Rightarrow> Inl AttributeError)
      | _ \<Rightarrow> Inl AttributeError)"

text \<open>\<^verbatim>\<open>type(v).__name__\<close>\<close>

definition type_name :: "pyobj \<Rightarrow> string" where
  "type_name v =
     (case v of
        Node i c fs \<Rightarrow> c
      | PList xs \<Rightarrow> ''list''
      | PStr s \<Rightarrow> ''str''
      | PInt n \<Rightarrow> ''int''
      | PBool b \<Rightarrow> ''bool''
      | PNone \<Rightarrow> ''NoneType''
      | POther ty r \<Rightarrow> ty)"

subsection \<open>Decimal text of integers\<close>

definition digit_char :: "nat \<Rightarrow> char" where
  "digit_char d = char_of (48 + d)"

fun str_nat :: "nat \<Rightarrow> string" where
  "str_nat n = (if n < 10 then [digit_char n] else str_nat (n div 10) @ [digit_char (n mod 10)])"

declare str_nat.simps [simp del]

definition str_int :: "int \<Rightarrow> string" where
  "str_int i = (if i < 0 then ''-'' @ str_nat (nat (- i)) else str_nat (nat i))"

text \<open>
  \<^verbatim>\<open>str(v)\<close>, as an f-string field \<^verbatim>\<open>{v}\<close> renders it. The interpreter (from version 3.11
  on, with the default \<^verbatim>\<open>sys.get_int_max_str_digits()\<close> of 4300) refuses to write out an
  integer of more than 4300 digits; a hexadecimal literal can denote one. The lengths of
  lists that the labels show are written with \<open>str_nat\<close> directly: a list in memory is
  far shorter than that.
\<close>

definition max_str_digits :: nat where
  "max_str_digits = 4300"

definition py_str :: "pyobj \<Rightarrow> py_error + string" where
  "py_str v =
     (case v of
        PStr s \<Rightarrow> Inr s
      | PInt n \<Rightarrow>
          if max_str_digits < length (str_nat (nat \<bar>n\<bar>)) then Inl ValueError
          else Inr (str_int n)
      | PBool b \<Rightarrow> Inr (if b then ''True'' else ''False'')
      | PNone \<Rightarrow> Inr ''None''
      | POther ty r \<Rightarrow> Inr r
      | _ \<Rightarrow> Inl NotModelled)"

text \<open>\<^verbatim>\<open>len(v)\<close>\<close>

definition py_len :: "pyobj \<Rightarrow> py_error + nat" where
  "py_len v =
     (case v of
        PList xs \<Rightarrow> Inr (length xs)
      | PStr s \<Rightarrow> Inr (length s)
      | POther ty r \<Rightarrow> Inl NotModelled
      | _ \<Rightarrow> Inl TypeError)"

text \<open>The truth value of \<^verbatim>\<open>v\<close> in a condition.\<close>

definition truthy :: "pyobj \<Rightarrow> py_error + bool" where
  "truthy v =
     (case v of
        Node i c fs \<Rightarrow> Inr True
      | PList xs \<Rightarrow> Inr (xs \<noteq> [])
      | PStr s \<Rightarrow> Inr (s \<noteq> [])
      | PInt n \<Rightarrow> Inr (n \<noteq> 0)
      | PBool b \<Rightarrow> Inr b
      | PNone \<Rightarrow> Inr False
      | POther ty r \<Rightarrow> Inl NotModelled)"

text \<open>\<^verbatim>\<open>v[0]\<close>\<close>

definition item0 :: "pyobj \<Rightarrow> py_error + pyobj" where
  "item0 v =
     (case v of
        PList xs \<Rightarrow> (case xs of [] \<Rightarrow> Inl IndexError | x # r \<Rightarrow> Inr x)
      | PStr s \<Rightarrow> (case s of [] \<Rightarrow> Inl IndexError | x # r \<Rightarrow> Inr (PStr [x]))
      | POther ty r \<Rightarrow> Inl NotModelled
      | _ \<Rightarrow> Inl TypeError)"

text \<open>The elements that \<^verbatim>\<open>for x in v\<close> runs through.\<close>

definition py_iter :: "pyobj \<Rightarrow> py_error + pyobj list" where
  "py_iter v =
     (case v of
        PList xs \<Rightarrow> Inr xs
      | PStr s \<Rightarrow> Inr (map (\<lambda>c. PStr [c]) s)
      | POther ty r \<Rightarrow> Inl NotModelled
      | _ \<Rightarrow> Inl TypeError)"

text \<open>\<^verbatim>\<open>sep.join(xs)\<close>: every element must be a \<^verbatim>\<open>str\<close>.\<close>

fun join :: "string \<Rightarrow> pyobj list \<Rightarrow> py_error + string" where
  "join sep [] = Inr []"
| "join sep [PStr s] = Inr s"
| "join sep (PStr s # x # xs) =
     (case join sep (x # xs) of Inl e \<Rightarrow> Inl e | Inr r \<Rightarrow> Inr (s @ sep @ r))"
| "join sep (v # xs) = Inl TypeError"

text \<open>\<^verbatim>\<open>[alias.name for alias in xs]\<close>\<close>

fun alias_names :: "pyobj list \<Rightarrow> py_error + pyobj list" where
  "alias_names [] = Inr []"
| "alias_names (x # xs) =
     (case getattr x ''name'' of
        Inl e \<Rightarrow> Inl e
      | Inr n \<Rightarrow> (case alias_names xs of Inl e \<Rightarrow> Inl e | Inr ns \<Rightarrow> Inr (n # ns)))"

text \<open>The text of the f-string field \<^verbatim>\<open>{v.a}\<close>.\<close>

definition fmt_attr :: "pyobj \<Rightarrow> string \<Rightarrow> py_error + string" where
  "fmt_attr v a = bind_err (getattr v a) py_str"

section \<open>Labels (lines 66 to 160 of \<^verbatim>\<open>add_node\<close>)\<close>

text \<open>
  Lines 92 to 104: the name of the called function. \<^verbatim>\<open>node_type\<close> is the class name of
  the call node itself.
\<close>

definition call_func_name :: "pyobj \<Rightarrow> py_error + string" where
  "call_func_name node =
     bind_err (getattr node ''func'') (\<lambda>func.
       if isinstance func ''Name'' then fmt_attr func ''id''
       else if isinstance func ''Attribute'' then
         bind_err (getattr func ''value'') (\<lambda>v.
           if isinstance v ''Name'' then
             bind_err (fmt_attr v ''id'') (\<lambda>a.
             bind_err (fmt_attr func ''attr'') (\<lambda>b. Inr (a @ ''.'' @ b)))
           else
             bind_err (if isinstance v ''Attribute''
                       then bind_err (getattr v ''value'') (\<lambda>vv. Inr (isinstance vv ''Name''))
                       else Inr False) (\<lambda>chain.
               if chain then
                 bind_err (getattr v ''value'') (\<lambda>vv.
                 bind_err (fmt_attr vv ''id'') (\<lambda>a.
                 bind_err (fmt_attr v ''attr'') (\<lambda>b.
                 bind_err (fmt_attr func ''attr'') (\<lambda>c. Inr (a @ ''.'' @ b @ ''.'' @ c)))))
               else fmt_attr func ''attr''))
       else Inr (type_name node))"

text \<open>Line 105: the label of a call before any mark.\<close>

definition call_base :: "pyobj \<Rightarrow> py_error + string" where
  "call_base node =
     bind_err (call_func_name node) (\<lambda>func_name.
     bind_err (getattr node ''args'') (\<lambda>args.
     bind_err (py_len args) (\<lambda>n.
       Inr (''Call: '' @ func_name @ '' (args='' @ str_nat n @ '')''))))"

text \<open>
  Lines 90 to 112. The second component is the \<^verbatim>\<open>fillcolor\<close> passed to \<^verbatim>\<open>dot.node\<close>,
  if any: a classified call is added to the graph at line 109 or 112, every other node at
  line 164, so each first visit calls \<^verbatim>\<open>dot.node\<close> once.
\<close>

definition call_label :: "nat set \<Rightarrow> nat set \<Rightarrow> pyobj \<Rightarrow> py_error + string \<times> string option" where
  "call_label external_calls internal_calls node =
     bind_err (call_base node) (\<lambda>label.
       if ident node \<in> external_calls then Inr (label @ '' [external]'', Some ''lightcoral'')
       else if ident node \<in> internal_calls then Inr (label @ '' [internal]'', Some ''lightblue'')
       else Inr (label, None))"

text \<open>Line 122: \<^verbatim>\<open>val.replace("\n", "\\n")\<close>, a line feed becomes a backslash and an n.\<close>

definition replace_newline :: "string \<Rightarrow> string" where
  "replace_newline val = concat (map (\<lambda>c. if c = CHR 0x0A then [CHR 0x5C, CHR ''n''] else [c]) val)"

text \<open>Lines 122 to 124: the text between the quotes of a string constant's label.\<close>

definition const_payload :: "string \<Rightarrow> string" where
  "const_payload val =
     (let s = replace_newline val in if length s > 20 then take 17 s @ ''...'' else s)"

definition const_label :: "pyobj \<Rightarrow> py_error + string" where
  "const_label val =
     (case val of
        PStr v \<Rightarrow> Inr (''Constant: '' @ [CHR 0x22] @ const_payload v @ [CHR 0x22])
      | _ \<Rightarrow> bind_err (py_str val) (\<lambda>r. Inr (''Constant: '' @ r)))"

definition elts_label :: "string \<Rightarrow> pyobj \<Rightarrow> py_error + string" where
  "elts_label kind node =
     bind_err (getattr node ''elts'') (\<lambda>es.
     bind_err (py_len es) (\<lambda>n. Inr (kind @ '' (elts='' @ str_nat n @ '')'')))"

definition plain_label :: "pyobj \<Rightarrow> py_error + string" where
  "plain_label node =
     (if isinstance node ''FunctionDef'' then
        bind_err (fmt_attr node ''name'') (\<lambda>name.
        bind_err (getattr node ''args'') (\<lambda>a.
        bind_err (getattr a ''args'') (\<lambda>aa.
        bind_err (py_len aa) (\<lambda>n.
          Inr (''FunctionDef: name='' @ name @ '', args='' @ str_nat n)))))
      else if isinstance node ''ClassDef'' then
        bind_err (fmt_attr node ''name'') (\<lambda>name. Inr (''ClassDef: name='' @ name))
      else if isinstance node ''Import'' then
        bind_err (getattr node ''names'') (\<lambda>names.
        bind_err (py_iter names) (\<lambda>xs.
        bind_err (alias_names xs) (\<lambda>mods.
        bind_err (join '', '' mods) (\<lambda>j. Inr (''Import: '' @ j)))))
      else if isinstance node ''ImportFrom'' then
        bind_err (getattr node ''names'') (\<lambda>names.
        bind_err (py_iter names) (\<lambda>xs.
        bind_err (alias_names xs) (\<lambda>mods.
        bind_err (fmt_attr node ''module'') (\<lambda>m.
        bind_err (join '', '' mods) (\<lambda>j. Inr (''ImportFrom: '' @ m @ '', names='' @ j))))))
      else if isinstance node ''Assign'' then
        bind_err (getattr node ''targets'') (\<lambda>targets.
        bind_err (py_len targets) (\<lambda>n.
          if n = 1 then
            bind_err (item0 targets) (\<lambda>t.
              if isinstance t ''Name''
              then bind_err (fmt_attr t ''id'') (\<lambda>x. Inr (''Assign: '' @ x @ '' = ...''))
              else Inr ''Assign'')
          else Inr ''Assign''))
      else if isinstance node ''Return'' then Inr ''Return''
      else if isinstance node ''Attribute'' then
        bind_err (fmt_attr node ''attr'') (\<lambda>a. Inr (''Attribute: .'' @ a))
      else if isinstance node ''Name'' then
        bind_err (getattr node ''ctx'') (\<lambda>ctx.
        bind_err (fmt_attr node ''id'') (\<lambda>x.
          Inr (''Name: '' @ x @ '' ('' @ type_name ctx @ '')'')))
      else if isinstance node ''Constant'' then
        bind_err (getattr node ''value'') const_label
      else if isinstance node ''arg'' then
        bind_err (fmt_attr node ''arg'') (\<lambda>a. Inr (''arg: '' @ a))
      else if isinstance node ''For'' then Inr ''For''
      else if isinstance node ''If'' then Inr ''If''
      else if isinstance node ''While'' then Inr ''While''
      else if isinstance node ''Try'' then Inr ''Try''
      else if isinstance node ''ExceptHandler'' then Inr ''ExceptHandler''
      else if isinstance node ''List'' then elts_label ''List'' node
      else if isinstance node ''Tuple'' then elts_label ''Tuple'' node
      else if isinstance node ''Dict'' then
        bind_err (getattr node ''keys'') (\<lambda>keys.
        bind_err (truthy keys) (\<lambda>t.
        bind_err (if t then py_len keys else Inr 0) (\<lambda>count.
          Inr (''Dict (pairs='' @ str_nat count @ '')''))))
      else if isinstance node ''Set'' then elts_label ''Set'' node
      else if isinstance node ''ListComp'' then Inr ''ListComp''
      else if isinstance node ''GeneratorExp'' then Inr ''GeneratorExp''
      else if isinstance node ''comprehension'' then Inr ''comprehension''
      else if isinstance node ''With'' then Inr ''With''
      else if isinstance node ''withitem'' then Inr ''withitem''
      else Inr (type_name node))"

text \<open>
  The label and fill colour of a node on its first visit. The call branch stands at its
  place in the chain of the source, after \<^verbatim>\<open>Return\<close>; the class names exclude each other.
\<close>

definition node_label :: "nat set \<Rightarrow> nat set \<Rightarrow> pyobj \<Rightarrow> py_error + string \<times> string option" where
  "node_label external_calls internal_calls node =
     (if isinstance node ''Call'' then call_label external_calls internal_calls node
      else bind_err (plain_label node) (\<lambda>label. Inr (label, None)))"

section \<open>Finding and classifying the calls of \<^verbatim>\<open>yaml.load\<close> (lines 10 to 45)\<close>

text \<open>Lines 29 and 30: the test of \<^verbatim>\<open>visit_Call\<close>.\<close>

definition is_yaml_load :: "pyobj \<Rightarrow> py_error + bool" where
  "is_yaml_load node =
     bind_err (getattr node ''func'') (\<lambda>func.
     bind_err (if isinstance func ''Attribute''
               then bind_err (getattr func ''attr'') (\<lambda>a. Inr (a = PStr ''load''))
               else Inr False) (\<lambda>is_load.
       if is_load then
         bind_err (getattr func ''value'') (\<lambda>v.
           if isinstance v ''Name''
           then bind_err (getattr v ''id'') (\<lambda>x. Inr (x = PStr ''yaml''))
           else Inr False)
       else Inr False))"

text \<open>
  \<^verbatim>\<open>FindYamlLoad().visit\<close>. \<^verbatim>\<open>ast.NodeVisitor.visit\<close> dispatches on the class name to
  \<^verbatim>\<open>visit_FunctionDef\<close>, \<^verbatim>\<open>visit_ClassDef\<close> or \<^verbatim>\<open>visit_Call\<close> and to \<^verbatim>\<open>generic_visit\<close>
  otherwise, and each of the three ends in \<^verbatim>\<open>generic_visit\<close>. \<open>visit_enter\<close> is what they do
  before that: it gives the \<^verbatim>\<open>current_func\<close> for the fields of the node and the list
  \<^verbatim>\<open>yaml_load_calls\<close>. \<^verbatim>\<open>self.current_func\<close> is restored after the body of a function, so
  it is an argument here.
\<close>

definition visit_enter ::
  "pyobj \<Rightarrow> pyobj \<Rightarrow> (pyobj \<times> pyobj) list \<Rightarrow> py_error + pyobj \<times> (pyobj \<times> pyobj) list" where
  "visit_enter current_func node yaml_load_calls =
     (if isinstance node ''FunctionDef'' then
        bind_err (getattr node ''name'') (\<lambda>name. Inr (name, yaml_load_calls))
      else if isinstance node ''ClassDef'' then Inr (current_func, yaml_load_calls)
      else if isinstance node ''Call'' then
        bind_err (is_yaml_load node) (\<lambda>b.
          Inr (current_func,
               if b then yaml_load_calls @ [(node, current_func)] else yaml_load_calls))
      else Inr (current_func, yaml_load_calls))"

text \<open>
  \<^verbatim>\<open>generic_visit\<close> runs through the fields; it looks for a list first, then for a single
  object. A value that is no syntax-tree object has no \<^verbatim>\<open>_fields\<close>.

  The first argument of \<open>visit\<close> bounds the nesting of the calls of \<^verbatim>\<open>visit\<close>. The
  interpreter counts every frame against its recursion limit, also those of
  \<^verbatim>\<open>generic_visit\<close> and of the caller, so it raises \<^verbatim>\<open>RecursionError\<close> at the latest when
  \<^verbatim>\<open>visit\<close> is nested deeper than the limit, and as a rule earlier. With the recursion
  limit for this argument, a search that returns in the interpreter returns the same list
  here, and where \<open>visit\<close> gives \<open>RecursionError\<close> the interpreter raises it too; that
  \<open>visit\<close> returns a list does not say that the interpreter had stack enough.
\<close>

function visit ::
    "nat \<Rightarrow> pyobj \<Rightarrow> pyobj \<Rightarrow> (pyobj \<times> pyobj) list \<Rightarrow> py_error + (pyobj \<times> pyobj) list"
  and generic_visit ::
    "nat \<Rightarrow> pyobj \<Rightarrow> (string \<times> pyobj) list \<Rightarrow> (pyobj \<times> pyobj) list \<Rightarrow> py_error + (pyobj \<times> pyobj) list"
  and visit_items ::
    "nat \<Rightarrow> pyobj \<Rightarrow> pyobj list \<Rightarrow> (pyobj \<times> pyobj) list \<Rightarrow> py_error + (pyobj \<times> pyobj) list"
where
  "visit lim current_func node yaml_load_calls =
     (case lim of
        0 \<Rightarrow> Inl RecursionError
      | Suc lim' \<Rightarrow>
          (case node of
             Node i c fs \<Rightarrow>
               (case visit_enter current_func node yaml_load_calls of
                  Inl e \<Rightarrow> Inl e
                | Inr (cf, calls) \<Rightarrow> generic_visit lim' cf fs calls)
           | _ \<Rightarrow> Inl AttributeError))"
| "generic_visit lim current_func [] yaml_load_calls = Inr yaml_load_calls"
| "generic_visit lim current_func ((field, v) # rest) yaml_load_calls =
     (case (case v of
              PList xs \<Rightarrow> visit_items lim current_func xs yaml_load_calls
            | Node i c fs \<Rightarrow> visit lim current_func v yaml_load_calls
            | _ \<Rightarrow> Inr yaml_load_calls) of
        Inl e \<Rightarrow> Inl e
      | Inr calls \<Rightarrow> generic_visit lim current_func rest calls)"
| "visit_items lim current_func [] yaml_load_calls = Inr yaml_load_calls"
| "visit_items lim current_func (item # items) yaml_load_calls =
     (case (case item of
              Node i c fs \<Rightarrow> visit lim current_func item yaml_load_calls
            | _ \<Rightarrow> Inr yaml_load_calls) of
        Inl e \<Rightarrow> Inl e
      | Inr calls \<Rightarrow> visit_items lim current_func items calls)"
  by pat_completeness auto
termination
  by (relation "measure (\<lambda>x. case x of
          Inl (l, c, n, a) \<Rightarrow> size n
        | Inr (Inl (l, c, fs, a)) \<Rightarrow> size_list (size_prod (\<lambda>x. 0) size) fs
        | Inr (Inr (l, c, xs, a)) \<Rightarrow> size_list size xs)") auto

text \<open>
  \<^verbatim>\<open>ast.iter_child_nodes\<close>: the objects in the fields of a node and in the lists its fields
  hold, in the order of the fields.
\<close>

fun field_children :: "(string \<times> pyobj) list \<Rightarrow> pyobj list" where
  "field_children [] = []"
| "field_children ((field, v) # rest) =
     (case v of
        Node i c fs \<Rightarrow> [v]
      | PList xs \<Rightarrow> filter is_ast xs
      | _ \<Rightarrow> []) @ field_children rest"

definition iter_child_nodes :: "pyobj \<Rightarrow> pyobj list" where
  "iter_child_nodes node = (case node of Node i c fs \<Rightarrow> field_children fs | _ \<Rightarrow> [])"

lemma size_filter_is_ast:
  "(\<Sum>x\<leftarrow>filter is_ast xs. Suc (size x)) \<le> size_list size xs"
  by (induction xs) auto

lemma size_field_children:
  "(\<Sum>x\<leftarrow>field_children fs. Suc (size x)) \<le> size_list (size_prod (\<lambda>x. 0) size) fs"
proof (induction fs)
  case Nil
  show ?case by simp
next
  case (Cons p fs)
  obtain f v where p: "p = (f, v)" by (cases p)
  show ?case
  proof (cases v)
    case (PList xs)
    with Cons p size_filter_is_ast [of xs] show ?thesis by simp
  qed (use Cons p in simp_all)
qed

lemma size_iter_child_nodes:
  "(\<Sum>x\<leftarrow>iter_child_nodes n. Suc (size x)) < Suc (size n)"
proof (cases n)
  case (Node i c fs)
  with size_field_children [of fs] show ?thesis
    by (simp add: iter_child_nodes_def)
qed (simp_all add: iter_child_nodes_def)

text \<open>
  \<^verbatim>\<open>ast.walk\<close>: the queue \<^verbatim>\<open>todo\<close> starts with the node; each step takes the first object
  off it, appends that object's children and yields the object.
\<close>

function ast_walk :: "pyobj list \<Rightarrow> pyobj list" where
  "ast_walk [] = []"
| "ast_walk (node # todo) = node # ast_walk (todo @ iter_child_nodes node)"
  by pat_completeness auto
termination
proof (relation "measure (\<lambda>todo. \<Sum>x\<leftarrow>todo. Suc (size x))")
  show "wf (measure (\<lambda>todo. \<Sum>x\<leftarrow>todo. Suc (size x)))" by simp
next
  fix node :: pyobj and todo :: "pyobj list"
  show "(todo @ iter_child_nodes node, node # todo) \<in> measure (\<lambda>todo. \<Sum>x\<leftarrow>todo. Suc (size x))"
    using size_iter_child_nodes [of node] by simp
qed

text \<open>
  Line 13: \<^verbatim>\<open>any\<close> stops at the first name \<^verbatim>\<open>request\<close>; reading \<^verbatim>\<open>n.id\<close> may fail before.
\<close>

fun any_request :: "pyobj list \<Rightarrow> py_error + bool" where
  "any_request [] = Inr False"
| "any_request (n # ns) =
     (if isinstance n ''Name'' then
        (case getattr n ''id'' of
           Inl e \<Rightarrow> Inl e
         | Inr x \<Rightarrow> if x = PStr ''request'' then Inr True else any_request ns)
      else any_request ns)"

text \<open>Lines 10 to 13. \<^verbatim>\<open>ast.walk\<close> reads \<^verbatim>\<open>_fields\<close> of its argument.\<close>

definition is_external_input :: "pyobj \<Rightarrow> py_error + bool" where
  "is_external_input node =
     (if node = PNone then Inr False
      else if is_ast node then any_request (ast_walk [node])
      else Inl AttributeError)"

text \<open>Line 41: \<^verbatim>\<open>call_node.args[0] if call_node.args else None\<close>\<close>

definition first_arg :: "pyobj \<Rightarrow> py_error + pyobj" where
  "first_arg call_node =
     bind_err (getattr call_node ''args'') (\<lambda>args.
     bind_err (truthy args) (\<lambda>t. if t then item0 args else Inr PNone))"

text \<open>Lines 41 and 42: whether one recorded call is marked external.\<close>

definition classify_call :: "pyobj \<Rightarrow> pyobj \<Rightarrow> py_error + bool" where
  "classify_call call_node func_name =
     bind_err (first_arg call_node) (\<lambda>arg.
       if func_name = PStr ''_external_load'' then Inr True else is_external_input arg)"

text \<open>Lines 37 to 45: the loop that fills \<^verbatim>\<open>external_calls\<close> and \<^verbatim>\<open>internal_calls\<close>.\<close>

fun classify :: "(pyobj \<times> pyobj) list \<Rightarrow> nat set \<times> nat set \<Rightarrow> py_error + nat set \<times> nat set" where
  "classify [] sets = Inr sets"
| "classify ((call_node, func_name) # rest) (external_calls, internal_calls) =
     (case classify_call call_node func_name of
        Inl e \<Rightarrow> Inl e
      | Inr True \<Rightarrow> classify rest (insert (ident call_node) external_calls, internal_calls)
      | Inr False \<Rightarrow> classify rest (external_calls, insert (ident call_node) internal_calls))"

section \<open>The walk (lines 53 to 187)\<close>

text \<open>
  The graph is the list of statements that \<^verbatim>\<open>dot.node\<close> and \<^verbatim>\<open>dot.edge\<close> append to the
  body of the \<^verbatim>\<open>Digraph\<close>, in call order. The globals \<^verbatim>\<open>node_counter\<close> and \<^verbatim>\<open>node_ids\<close> and
  the graph are the state of the walk.
\<close>

datatype stmt =
    NodeStmt string string "string option"
  | EdgeStmt string string string

record walk_state =
  node_counter :: nat
  node_ids :: "nat \<rightharpoonup> string"
  body :: "stmt list"

definition initial :: walk_state where
  "initial = \<lparr>node_counter = 0, node_ids = Map.empty, body = []\<rparr>"

text \<open>
  Lines 59 to 167: the graph name of the node. A first visit takes the next name,
  computes the label and adds the node to the graph; a later visit finds the name in
  \<^verbatim>\<open>node_ids\<close>.
\<close>

definition get_nid :: "nat set \<Rightarrow> nat set \<Rightarrow> pyobj \<Rightarrow> walk_state \<Rightarrow> py_error + string \<times> walk_state" where
  "get_nid external_calls internal_calls node st =
     (case node_ids st (ident node) of
        None \<Rightarrow>
          (case node_label external_calls internal_calls node of
             Inl e \<Rightarrow> Inl e
           | Inr (label, fill) \<Rightarrow>
               let nid = ''node'' @ str_nat (node_counter st) in
               Inr (nid, st\<lparr>node_counter := node_counter st + 1,
                             node_ids := (node_ids st)(ident node \<mapsto> nid),
                             body := body st @ [NodeStmt nid label fill]\<rparr>))
      | Some nid \<Rightarrow> Inr (nid, st))"

text \<open>Lines 170 to 174: \<^verbatim>\<open>if parent_id:\<close> holds for a string that is not empty.\<close>

definition add_edge :: "string option \<Rightarrow> string \<Rightarrow> string option \<Rightarrow> walk_state \<Rightarrow> walk_state" where
  "add_edge parent_id nid field_name st =
     (case parent_id of
        None \<Rightarrow> st
      | Some pid \<Rightarrow>
          if pid = [] then st
          else st\<lparr>body := body st @
                   [EdgeStmt pid nid (case field_name of None \<Rightarrow> [] | Some f \<Rightarrow> f)]\<rparr>)"

text \<open>
  \<^verbatim>\<open>add_node\<close>, with the loop over the fields (line 177) and the loop over the elements of
  a list (line 181) as \<open>add_fields\<close> and \<open>add_elems\<close>.

  The third argument bounds the nesting of the calls of \<^verbatim>\<open>add_node\<close>; the script sets no
  limit of its own. The interpreter counts every frame against its recursion limit, also
  those of the caller and of the calls \<^verbatim>\<open>dot.node\<close>, \<^verbatim>\<open>dot.edge\<close> and \<^verbatim>\<open>ast.iter_fields\<close>
  made inside \<^verbatim>\<open>add_node\<close>, whose number is not fixed by the script. So the interpreter
  raises \<^verbatim>\<open>RecursionError\<close> at the latest when \<^verbatim>\<open>add_node\<close> is nested deeper than the
  limit, and as a rule a few levels earlier. With the recursion limit for this argument,
  a walk that returns in the interpreter returns the same state here, and where
  \<open>add_node\<close> gives \<open>RecursionError\<close> the interpreter raises it too; that \<open>add_node\<close>
  returns a state does not say that the interpreter had stack enough.
\<close>

function add_node ::
    "nat set \<Rightarrow> nat set \<Rightarrow> nat \<Rightarrow> pyobj \<Rightarrow> string option \<Rightarrow> string option \<Rightarrow> walk_state
       \<Rightarrow> py_error + walk_state"
  and add_fields ::
    "nat set \<Rightarrow> nat set \<Rightarrow> nat \<Rightarrow> string \<Rightarrow> (string \<times> pyobj) list \<Rightarrow> walk_state
       \<Rightarrow> py_error + walk_state"
  and add_elems ::
    "nat set \<Rightarrow> nat set \<Rightarrow> nat \<Rightarrow> string \<Rightarrow> string \<Rightarrow> nat \<Rightarrow> pyobj list \<Rightarrow> walk_state
       \<Rightarrow> py_error + walk_state"
where
  "add_node E I lim node parent_id field_name st =
     (case lim of
        0 \<Rightarrow> Inl RecursionError
      | Suc lim' \<Rightarrow>
          (case node of
             Node i c fs \<Rightarrow>
               (case get_nid E I node st of
                  Inl e \<Rightarrow> Inl e
                | Inr (nid, st1) \<Rightarrow>
                    add_fields E I lim' nid fs (add_edge parent_id nid field_name st1))
           | _ \<Rightarrow> Inl AttributeError))"
| "add_fields E I lim nid [] st = Inr st"
| "add_fields E I lim nid ((field, v) # rest) st =
     (case (case v of
              Node i c fs \<Rightarrow> add_node E I lim v (Some nid) (Some field) st
            | PList xs \<Rightarrow> add_elems E I lim nid field 0 xs st
            | _ \<Rightarrow> Inr st) of
        Inl e \<Rightarrow> Inl e
      | Inr st' \<Rightarrow> add_fields E I lim nid rest st')"
| "add_elems E I lim nid field idx [] st = Inr st"
| "add_elems E I lim nid field idx (elem # elems) st =
     (case (case elem of
              Node i c fs \<Rightarrow>
                add_node E I lim elem (Some nid) (Some (field @ ''['' @ str_nat idx @ '']'')) st
            | _ \<Rightarrow> Inr st) of
        Inl e \<Rightarrow> Inl e
      | Inr st' \<Rightarrow> add_elems E I lim nid field (Suc idx) elems st')"
  by pat_completeness auto
termination
  by (relation "measure (\<lambda>x. case x of
          Inl (E, I, l, n, p, f, st) \<Rightarrow> size n
        | Inr (Inl (E, I, l, nid, fs, st)) \<Rightarrow> size_list (size_prod (\<lambda>x. 0) size) fs
        | Inr (Inr (E, I, l, nid, f, idx, xs, st)) \<Rightarrow> size_list size xs)") auto

section \<open>Notions the properties are stated with\<close>

text \<open>
  The sub-objects that \<^verbatim>\<open>add_node\<close> calls itself on, each with its edge label, in the
  order of the calls: the fields in the order of \<^verbatim>\<open>ast.iter_fields\<close>; for a field that
  holds an object the field name, for a field that holds a list the objects of the list
  in index order with \<^verbatim>\<open>field[index]\<close>.
\<close>

fun elem_refs :: "string \<Rightarrow> nat \<Rightarrow> pyobj list \<Rightarrow> (string \<times> pyobj) list" where
  "elem_refs field idx [] = []"
| "elem_refs field idx (x # xs) =
     (if is_ast x then [(field @ ''['' @ str_nat idx @ '']'', x)] else [])
     @ elem_refs field (Suc idx) xs"

fun child_refs :: "(string \<times> pyobj) list \<Rightarrow> (string \<times> pyobj) list" where
  "child_refs [] = []"
| "child_refs ((field, v) # rest) =
     (case v of
        Node i c fs \<Rightarrow> [(field, v)]
      | PList xs \<Rightarrow> elem_refs field 0 xs
      | _ \<Rightarrow> [])
     @ child_refs rest"

lemma elem_refs_size:
  "(l, ch) \<in> set (elem_refs field idx xs) \<Longrightarrow> is_ast ch \<and> size ch < Suc (size_list size xs)"
  by (induction xs arbitrary: idx) (fastforce split: if_splits)+

lemma child_refs_size:
  "(l, ch) \<in> set (child_refs fs) \<Longrightarrow>
     is_ast ch \<and> size ch < Suc (size_list (size_prod (\<lambda>x. 0) size) fs)"
proof (induction fs)
  case Nil
  then show ?case by simp
next
  case (Cons p fs)
  obtain f v where p: "p = (f, v)" by (cases p)
  show ?case
  proof (cases v)
    case (Node i c gs)
    with Cons p show ?thesis by (auto simp: is_ast_def)
  next
    case (PList xs)
    with Cons p elem_refs_size [of l ch f 0 xs] show ?thesis by auto
  qed (use Cons p in auto)
qed

text \<open>
  The objects a walk from \<open>v\<close> reaches, one entry for each way of reaching them, in the
  order of the descent.
\<close>

function subnodes :: "pyobj \<Rightarrow> pyobj list" where
  "subnodes v =
     (case v of
        Node i c fs \<Rightarrow> v # concat (map (\<lambda>(l, ch). subnodes ch) (child_refs fs))
      | _ \<Rightarrow> [])"
  by pat_completeness auto
termination
  by (relation "measure size") (auto dest: child_refs_size)

text \<open>The nesting depth: the longest chain of objects, each held by the one before.\<close>

function depth :: "pyobj \<Rightarrow> nat" where
  "depth v =
     (case v of
        Node i c fs \<Rightarrow> Suc (foldr max (map (\<lambda>(l, ch). depth ch) (child_refs fs)) 0)
      | _ \<Rightarrow> 0)"
  by pat_completeness auto
termination
  by (relation "measure size") (auto dest: child_refs_size)

text \<open>
  Identities stand for objects: a tree is consistent when two entries with the same
  identity are the same object, with the same class and fields.
\<close>

definition consistent :: "pyobj \<Rightarrow> bool" where
  "consistent tree =
     list_all (\<lambda>x. list_all (\<lambda>y. ident x = ident y \<longrightarrow> x = y) (subnodes tree)) (subnodes tree)"

text \<open>The statement that line 174 adds, if any.\<close>

definition edge_stmt :: "string option \<Rightarrow> string \<Rightarrow> string option \<Rightarrow> stmt list" where
  "edge_stmt parent_id nid field_name =
     (case parent_id of
        None \<Rightarrow> []
      | Some pid \<Rightarrow>
          if pid = [] then []
          else [EdgeStmt pid nid (case field_name of None \<Rightarrow> [] | Some f \<Rightarrow> f)])"

text \<open>
  The edges of a walk from \<open>v\<close>, read off a finished table of graph names: the edge
  into \<open>v\<close>, then the edges of the walks from its sub-objects in turn.
\<close>

function walk_edges ::
  "(nat \<rightharpoonup> string) \<Rightarrow> string option \<Rightarrow> string option \<Rightarrow> pyobj \<Rightarrow> stmt list" where
  "walk_edges m parent_id field_name v =
     (case v of
        Node i c fs \<Rightarrow>
          (case m i of
             None \<Rightarrow> []
           | Some nid \<Rightarrow>
               edge_stmt parent_id nid field_name
               @ concat (map (\<lambda>(l, ch). walk_edges m (Some nid) (Some l) ch) (child_refs fs)))
      | _ \<Rightarrow> [])"
  by pat_completeness auto
termination
  by (relation "measure (\<lambda>(m, p, f, v). size v)") (auto dest: child_refs_size)

text \<open>The edge statements of a graph body, and the graph names they point to.\<close>

fun is_edge :: "stmt \<Rightarrow> bool" where
  "is_edge (EdgeStmt a b l) = True"
| "is_edge (NodeStmt n l c) = False"

fun points_to :: "string \<Rightarrow> stmt \<Rightarrow> bool" where
  "points_to nid (EdgeStmt a b l) = (b = nid)"
| "points_to nid (NodeStmt n l c) = False"

text \<open>
  \<open>followed b\<close>: every node statement of \<open>b\<close> has an edge statement right after it that
  points to the node.
\<close>

fun followed :: "stmt list \<Rightarrow> bool" where
  "followed [] = True"
| "followed (EdgeStmt a b l # r) = followed r"
| "followed (NodeStmt n l c # EdgeStmt a b l' # r) = (b = n \<and> followed r)"
| "followed (NodeStmt n l c # r) = False"

text \<open>Running a step over a list, stopping at the first failure.\<close>

fun fold_err :: "('a \<Rightarrow> 's \<Rightarrow> py_error + 's) \<Rightarrow> 'a list \<Rightarrow> 's \<Rightarrow> py_error + 's" where
  "fold_err step [] st = Inr st"
| "fold_err step (x # xs) st =
     (case step x st of Inl e \<Rightarrow> Inl e | Inr st' \<Rightarrow> fold_err step xs st')"

text \<open>The graph name that line 62 builds from the counter.\<close>

definition nid_name :: "nat \<Rightarrow> string" where
  "nid_name k = ''node'' @ str_nat k"

section \<open>Lemmas about the walk\<close>

declare add_node.simps [simp del] visit.simps [simp del] subnodes.simps [simp del]
  depth.simps [simp del] walk_edges.simps [simp del]

lemma digit_char_inj: "a < 10 \<Longrightarrow> b < 10 \<Longrightarrow> digit_char a = digit_char b \<Longrightarrow> a = b"
proof -
  assume a: "a < 10" and b: "b < 10" and e: "digit_char a = digit_char b"
  from e have "(of_char (digit_char a) :: nat) = of_char (digit_char b)" by simp
  with a b show "a = b" by (simp add: digit_char_def)
qed

lemma str_nat_nonempty: "str_nat n \<noteq> []"
  by (subst str_nat.simps) simp

lemma str_nat_inj: "str_nat m = str_nat n \<Longrightarrow> m = n"
proof (induction m arbitrary: n rule: str_nat.induct)
  case (1 m)
  show ?case
  proof (cases "m < 10")
    case m: True
    show ?thesis
    proof (cases "n < 10")
      case True
      with m "1.prems" show ?thesis
        by (subst (asm) str_nat.simps, subst (asm) (2) str_nat.simps) (auto dest: digit_char_inj)
    next
      case False
      with m "1.prems" str_nat_nonempty [of "n div 10"] show ?thesis
        by (subst (asm) str_nat.simps, subst (asm) (2) str_nat.simps) auto
    qed
  next
    case m: False
    show ?thesis
    proof (cases "n < 10")
      case True
      with m "1.prems" str_nat_nonempty [of "m div 10"] show ?thesis
        by (subst (asm) str_nat.simps, subst (asm) (2) str_nat.simps) auto
    next
      case False
      with m "1.prems" have e: "str_nat (m div 10) = str_nat (n div 10)"
        and d: "digit_char (m mod 10) = digit_char (n mod 10)"
        by (subst (asm) str_nat.simps, subst (asm) (2) str_nat.simps, simp)+
      from "1.IH" [OF m e] have "m div 10 = n div 10" .
      moreover from d have "m mod 10 = n mod 10"
        by (rule digit_char_inj [rotated 2]) simp_all
      ultimately show ?thesis
        by (metis div_mult_mod_eq)
    qed
  qed
qed

lemma nid_name_inj: "nid_name a = nid_name b \<Longrightarrow> a = b"
  by (simp add: nid_name_def str_nat_inj)

lemma nid_name_nonempty: "nid_name k \<noteq> []"
  by (simp add: nid_name_def)

lemma is_ast_Node [simp]: "is_ast (Node i c fs)"
  by (simp add: is_ast_def)

lemma is_ast_iff: "is_ast v \<longleftrightarrow> (\<exists>i c fs. v = Node i c fs)"
  by (cases v) (simp_all add: is_ast_def)

lemma child_refs_ast: "(l, ch) \<in> set (child_refs fs) \<Longrightarrow> is_ast ch"
  by (simp add: child_refs_size)

lemma tree_induct [case_names Obj Other]:
  assumes obj: "\<And>i c fs. (\<And>l ch. (l, ch) \<in> set (child_refs fs) \<Longrightarrow> P ch) \<Longrightarrow> P (Node i c fs)"
    and other: "\<And>v. \<not> is_ast v \<Longrightarrow> P v"
  shows "P v"
proof (induction v rule: subnodes.induct)
  case (1 v)
  show ?case
  proof (cases "is_ast v")
    case True
    then obtain i c fs where v: "v = Node i c fs" by (auto simp: is_ast_iff)
    show ?thesis unfolding v
    proof (rule obj)
      fix l ch assume "(l, ch) \<in> set (child_refs fs)"
      with 1 [OF v] show "P ch" by blast
    qed
  next
    case False
    then show ?thesis by (rule other)
  qed
qed

lemma subnodes_Node:
  "subnodes (Node i c fs) = Node i c fs # concat (map (\<lambda>(l, ch). subnodes ch) (child_refs fs))"
  by (subst subnodes.simps) simp

lemma subnodes_other: "\<not> is_ast v \<Longrightarrow> subnodes v = []"
  by (cases v) (simp_all add: subnodes.simps [of "PList x" for x] subnodes.simps [of "PStr x" for x]
      subnodes.simps [of "PInt x" for x] subnodes.simps [of "PBool x" for x] subnodes.simps [of PNone]
      subnodes.simps [of "POther x y" for x y])

lemma depth_Node:
  "depth (Node i c fs) = Suc (foldr max (map (\<lambda>(l, ch). depth ch) (child_refs fs)) 0)"
  by (subst depth.simps) simp

lemma walk_edges_Node:
  "walk_edges m p f (Node i c fs) =
     (case m i of
        None \<Rightarrow> []
      | Some nid \<Rightarrow>
          edge_stmt p nid f
          @ concat (map (\<lambda>(l, ch). walk_edges m (Some nid) (Some l) ch) (child_refs fs)))"
  by (subst walk_edges.simps) simp

lemma fold_err_append:
  "fold_err step (xs @ ys) st =
     (case fold_err step xs st of Inl e \<Rightarrow> Inl e | Inr st1 \<Rightarrow> fold_err step ys st1)"
  by (induction xs arbitrary: st) (auto split: sum.splits)

lemma add_elems_fold:
  "add_elems E I lim nid f idx xs st =
     fold_err (\<lambda>(l, ch). add_node E I lim ch (Some nid) (Some l)) (elem_refs f idx xs) st"
proof (induction xs arbitrary: idx st)
  case Nil
  show ?case by simp
next
  case (Cons x xs)
  show ?case
    by (cases x) (simp_all add: Cons.IH is_ast_def split: sum.splits)
qed

lemma add_fields_fold:
  "add_fields E I lim nid fs st =
     fold_err (\<lambda>(l, ch). add_node E I lim ch (Some nid) (Some l)) (child_refs fs) st"
proof (induction fs arbitrary: st)
  case Nil
  show ?case by simp
next
  case (Cons p fs)
  obtain f v where p: "p = (f, v)" by (cases p)
  show ?case unfolding p
    by (cases v) (simp_all add: Cons.IH add_elems_fold fold_err_append split: sum.splits)
qed

lemma add_node_0 [simp]: "add_node E I 0 v p f st = Inl RecursionError"
  by (simp add: add_node.simps)

lemma add_node_Node:
  "add_node E I (Suc lim) (Node i c fs) p f st =
     (case get_nid E I (Node i c fs) st of
        Inl e \<Rightarrow> Inl e
      | Inr (nid, st1) \<Rightarrow>
          fold_err (\<lambda>(l, ch). add_node E I lim ch (Some nid) (Some l)) (child_refs fs)
            (add_edge p nid f st1))"
  by (auto simp: add_node.simps add_fields_fold split: sum.splits)

lemma add_node_other: "\<not> is_ast v \<Longrightarrow> add_node E I lim v p f st \<noteq> Inr st'"
  by (cases v; cases lim) (simp_all add: add_node.simps is_ast_def)

lemma add_node_InrE:
  assumes "add_node E I lim v p f st = Inr st'"
  obtains lim' i c fs nid st1 where "lim = Suc lim'" "v = Node i c fs"
    "get_nid E I v st = Inr (nid, st1)"
    "fold_err (\<lambda>(l, ch). add_node E I lim' ch (Some nid) (Some l)) (child_refs fs)
       (add_edge p nid f st1) = Inr st'"
proof (cases lim)
  case 0
  with assms show ?thesis by simp
next
  case (Suc lim')
  show ?thesis
  proof (cases "is_ast v")
    case True
    then obtain i c fs where "v = Node i c fs" by (auto simp: is_ast_iff)
    with assms Suc that show ?thesis
      by (auto simp: add_node_Node split: sum.splits)
  next
    case False
    with assms show ?thesis by (simp add: add_node_other)
  qed
qed

lemma fold_err_rel:
  assumes "fold_err step xs st = Inr st'"
    and step: "\<And>x s s'. x \<in> set xs \<Longrightarrow> step x s = Inr s' \<Longrightarrow> R s s'"
    and refl: "\<And>s. R s s"
    and trans: "\<And>a b c. R a b \<Longrightarrow> R b c \<Longrightarrow> R a c"
  shows "R st st'"
  using assms(1) step
proof (induction xs arbitrary: st)
  case Nil
  then show ?case by (simp add: refl)
next
  case (Cons x xs)
  from Cons.prems(1) obtain s1 where 1: "step x st = Inr s1" and 2: "fold_err step xs s1 = Inr st'"
    by (auto split: sum.splits)
  have "R st s1" by (rule Cons.prems(2) [OF _ 1]) simp
  moreover have "R s1 st'"
  proof (rule Cons.IH [OF 2])
    fix y s s' assume "y \<in> set xs" and "step y s = Inr s'"
    then show "R s s'" using Cons.prems(2) [of y s s'] by simp
  qed
  ultimately show ?case by (rule trans)
qed

lemma add_node_preserves:
  assumes refl: "\<And>st. R st st"
    and trans: "\<And>a b c. R a b \<Longrightarrow> R b c \<Longrightarrow> R a c"
    and step: "\<And>n st nid st1. is_ast n \<Longrightarrow> get_nid E I n st = Inr (nid, st1) \<Longrightarrow> R st st1"
    and edge: "\<And>p nid f st. R st (add_edge p nid f st)"
  shows "add_node E I lim v p f st = Inr st' \<Longrightarrow> R st st'"
proof (induction v arbitrary: lim p f st st' rule: tree_induct)
  case (Obj i c fs)
  from Obj.prems obtain lim' nid st1 where
    g: "get_nid E I (Node i c fs) st = Inr (nid, st1)"
    and a: "fold_err (\<lambda>(l, ch). add_node E I lim' ch (Some nid) (Some l)) (child_refs fs)
       (add_edge p nid f st1) = Inr st'"
    by (auto elim: add_node_InrE)
  have "R (add_edge p nid f st1) st'"
    using a
  proof (rule fold_err_rel)
    fix x s s'
    assume "x \<in> set (child_refs fs)"
      and "(case x of (l, ch) \<Rightarrow> add_node E I lim' ch (Some nid) (Some l)) s = Inr s'"
    then show "R s s'" using Obj.IH [of "fst x" "snd x"] by (simp add: case_prod_beta)
  qed (rule refl, rule trans)
  moreover have "R st st1" by (rule step [OF _ g]) simp
  ultimately show ?case
    using edge [of st1 p nid f] by (blast intro: trans)
next
  case (Other v)
  then show ?case by (simp add: add_node_other)
qed

lemma add_edge_simps [simp]:
  "node_ids (add_edge p nid f st) = node_ids st"
  "node_counter (add_edge p nid f st) = node_counter st"
  "body (add_edge p nid f st) = body st @ edge_stmt p nid f"
  by (simp_all add: add_edge_def edge_stmt_def split: option.splits)

lemma get_nid_old: "node_ids st (ident n) = Some nid \<Longrightarrow> get_nid E I n st = Inr (nid, st)"
  by (simp add: get_nid_def)

lemma get_nid_cases:
  assumes "get_nid E I n st = Inr (nid, st1)"
  obtains (old) "node_ids st (ident n) = Some nid" "st1 = st"
  | (new) l c where "node_ids st (ident n) = None" "node_label E I n = Inr (l, c)"
      "nid = nid_name (node_counter st)"
      "st1 = st\<lparr>node_counter := Suc (node_counter st),
                 node_ids := (node_ids st)(ident n \<mapsto> nid),
                 body := body st @ [NodeStmt nid l c]\<rparr>"
  using assms
  by (auto simp: get_nid_def nid_name_def Let_def split: option.splits sum.splits)

lemma get_nid_result:
  assumes "get_nid E I n st = Inr (nid, st1)"
  shows "node_ids st1 (ident n) = Some nid"
    and "node_ids st \<subseteq>\<^sub>m node_ids st1"
    and "node_counter st \<le> node_counter st1"
    and "dom (node_ids st1) = insert (ident n) (dom (node_ids st))"
    and "\<exists>new. body st1 = body st @ new"
  using assms by (auto elim!: get_nid_cases simp: map_le_def)

text \<open>What a walk never undoes.\<close>

definition grows :: "walk_state \<Rightarrow> walk_state \<Rightarrow> bool" where
  "grows a b \<longleftrightarrow>
     node_ids a \<subseteq>\<^sub>m node_ids b \<and> node_counter a \<le> node_counter b
     \<and> (\<exists>new. body b = body a @ new)"

lemma grows_refl: "grows a a"
  by (simp add: grows_def)

lemma grows_trans: "grows a b \<Longrightarrow> grows b c \<Longrightarrow> grows a c"
  by (auto simp: grows_def intro: map_le_trans)

lemma add_node_grows: "add_node E I lim v p f st = Inr st' \<Longrightarrow> grows st st'"
proof (rule add_node_preserves [where R = grows])
  fix n st nid st1
  assume "get_nid E I n st = Inr (nid, st1)"
  from get_nid_result(2,3,5) [OF this] show "grows st st1"
    by (simp add: grows_def)
qed (auto simp: grows_def intro: map_le_trans)

lemma grows_lookup: "grows a b \<Longrightarrow> node_ids a i = Some s \<Longrightarrow> node_ids b i = Some s"
  by (auto simp: grows_def map_le_def dom_def)

lemma grows_body: "grows a b \<Longrightarrow> s \<in> set (body a) \<Longrightarrow> s \<in> set (body b)"
  by (auto simp: grows_def)

text \<open>
  The graph names in the table are \<^verbatim>\<open>node0\<close>, \<^verbatim>\<open>node1\<close>, ... below the counter, and no
  two identities share one; every node statement carries a name of the table.
\<close>

definition names_ok :: "walk_state \<Rightarrow> bool" where
  "names_ok st \<longleftrightarrow>
     (\<forall>i s. node_ids st i = Some s \<longrightarrow> (\<exists>k<node_counter st. s = nid_name k))
     \<and> inj_on (node_ids st) (dom (node_ids st))
     \<and> (\<forall>nid l c. NodeStmt nid l c \<in> set (body st) \<longrightarrow> (\<exists>i. node_ids st i = Some nid))"

lemma names_ok_initial: "names_ok initial"
  by (simp add: names_ok_def initial_def)

lemma names_ok_nonempty:
  assumes "names_ok st" and "node_ids st i = Some s"
  shows "s \<noteq> []"
proof
  assume e: "s = []"
  from assms obtain k where "s = nid_name k" by (auto simp: names_ok_def)
  with e nid_name_nonempty [of k] show False by simp
qed

lemma names_ok_inj:
  "names_ok st \<Longrightarrow> node_ids st i = Some s \<Longrightarrow> node_ids st j = Some s \<Longrightarrow> i = j"
  by (auto simp: names_ok_def inj_on_def dom_def)

lemma names_ok_get_nid:
  assumes "get_nid E I n st = Inr (nid, st1)" and ok: "names_ok st"
  shows "names_ok st1"
  using assms(1)
proof (cases rule: get_nid_cases)
  case old
  with ok show ?thesis by simp
next
  case (new l c)
  have fresh: "node_ids st j \<noteq> Some nid" for j
  proof
    assume "node_ids st j = Some nid"
    with ok obtain k where "k < node_counter st" "nid = nid_name k"
      by (auto simp: names_ok_def)
    with new(3) show False by (auto dest: nid_name_inj)
  qed
  have 1: "\<forall>i s. node_ids st1 i = Some s \<longrightarrow> (\<exists>k<node_counter st1. s = nid_name k)"
    using ok new by (auto simp: names_ok_def less_Suc_eq)
  have 2: "inj_on (node_ids st1) (dom (node_ids st1))"
    using ok new fresh by (auto simp: names_ok_def inj_on_def dom_def)
  have 3: "\<forall>nid' l c. NodeStmt nid' l c \<in> set (body st1) \<longrightarrow> (\<exists>i. node_ids st1 i = Some nid')"
  proof (intro allI impI)
    fix nid' l' c' assume "NodeStmt nid' l' c' \<in> set (body st1)"
    with new have "nid' = nid \<or> NodeStmt nid' l' c' \<in> set (body st)" by auto
    then show "\<exists>i. node_ids st1 i = Some nid'"
    proof
      assume "nid' = nid"
      with new show ?thesis by auto
    next
      assume "NodeStmt nid' l' c' \<in> set (body st)"
      with ok obtain j where j: "node_ids st j = Some nid'"
        unfolding names_ok_def by blast
      with new(1) have "j \<noteq> ident n" by auto
      with j new show ?thesis by auto
    qed
  qed
  from 1 2 3 show ?thesis by (simp add: names_ok_def)
qed

lemma names_ok_add_edge: "names_ok st \<Longrightarrow> names_ok (add_edge p nid f st)"
  by (auto simp: names_ok_def edge_stmt_def split: option.splits)

lemma add_node_names_ok:
  "add_node E I lim v p f st = Inr st' \<Longrightarrow> names_ok st \<Longrightarrow> names_ok st'"
proof -
  assume a: "add_node E I lim v p f st = Inr st'"
  have "names_ok st \<longrightarrow> names_ok st'"
    by (rule add_node_preserves [where R = "\<lambda>a b. names_ok a \<longrightarrow> names_ok b", OF _ _ _ _ a])
      (auto intro: names_ok_get_nid names_ok_add_edge)
  then show "names_ok st \<Longrightarrow> names_ok st'" by simp
qed

definition idents :: "pyobj \<Rightarrow> nat set" where
  "idents v = ident ` set (subnodes v)"

lemma idents_Node:
  "idents (Node i c fs) = insert i (\<Union>x\<in>set (child_refs fs). idents (snd x))"
  by (simp add: idents_def subnodes_Node case_prod_beta image_UN)

lemma idents_child: "(l, ch) \<in> set (child_refs fs) \<Longrightarrow> idents ch \<subseteq> idents (Node i c fs)"
  by (force simp: idents_Node)

lemma fold_err_grows:
  assumes "fold_err (\<lambda>(l, ch). add_node E I lim ch (p l) (f l)) xs st = Inr st'"
  shows "grows st st'"
  using assms
proof (rule fold_err_rel)
  fix x s s'
  assume "(case x of (l, ch) \<Rightarrow> add_node E I lim ch (p l) (f l)) s = Inr s'"
  then show "grows s s'" by (cases x) (auto dest: add_node_grows)
qed (rule grows_refl, rule grows_trans)

lemma fold_err_names_ok:
  assumes "fold_err (\<lambda>(l, ch). add_node E I lim ch (p l) (f l)) xs st = Inr st'"
    and "names_ok st"
  shows "names_ok st'"
proof -
  have "names_ok st \<longrightarrow> names_ok st'"
    using assms(1)
  proof (rule fold_err_rel)
    fix x s s'
    assume "(case x of (l, ch) \<Rightarrow> add_node E I lim ch (p l) (f l)) s = Inr s'"
    then show "names_ok s \<longrightarrow> names_ok s'" by (cases x) (auto dest: add_node_names_ok)
  qed simp_all
  with assms(2) show ?thesis by simp
qed

lemma fold_err_dom:
  assumes "fold_err step xs st = Inr st'"
    and "\<And>x s s1. x \<in> set xs \<Longrightarrow> step x s = Inr s1
            \<Longrightarrow> dom (node_ids s1) = dom (node_ids s) \<union> idents (snd x)"
  shows "dom (node_ids st') = dom (node_ids st) \<union> (\<Union>x\<in>set xs. idents (snd x))"
  using assms
proof (induction xs arbitrary: st)
  case Nil
  then show ?case by simp
next
  case (Cons x xs)
  from Cons.prems(1) obtain s1 where 1: "step x st = Inr s1" and 2: "fold_err step xs s1 = Inr st'"
    by (auto split: sum.splits)
  have "dom (node_ids s1) = dom (node_ids st) \<union> idents (snd x)"
    by (rule Cons.prems(2) [OF _ 1]) simp
  moreover have "dom (node_ids st') = dom (node_ids s1) \<union> (\<Union>x\<in>set xs. idents (snd x))"
  proof (rule Cons.IH [OF 2])
    fix y s s' assume "y \<in> set xs" and "step y s = Inr s'"
    then show "dom (node_ids s') = dom (node_ids s) \<union> idents (snd y)"
      using Cons.prems(2) [of y s s'] by simp
  qed
  ultimately show ?case by auto
qed

lemma add_node_dom:
  "add_node E I lim v p f st = Inr st' \<Longrightarrow> dom (node_ids st') = dom (node_ids st) \<union> idents v"
proof (induction v arbitrary: lim p f st st' rule: tree_induct)
  case (Obj i c fs)
  from Obj.prems obtain lim' nid st1 where
    g: "get_nid E I (Node i c fs) st = Inr (nid, st1)"
    and a: "fold_err (\<lambda>(l, ch). add_node E I lim' ch (Some nid) (Some l)) (child_refs fs)
       (add_edge p nid f st1) = Inr st'"
    by (auto elim: add_node_InrE)
  have "dom (node_ids st') = dom (node_ids (add_edge p nid f st1))
          \<union> (\<Union>x\<in>set (child_refs fs). idents (snd x))"
    using a
  proof (rule fold_err_dom)
    fix x s s1
    assume "x \<in> set (child_refs fs)"
      and "(case x of (l, ch) \<Rightarrow> add_node E I lim' ch (Some nid) (Some l)) s = Inr s1"
    then show "dom (node_ids s1) = dom (node_ids s) \<union> idents (snd x)"
      using Obj.IH [of "fst x" "snd x"] by (simp add: case_prod_beta)
  qed
  with get_nid_result(4) [OF g] show ?case
    by (simp add: idents_Node)
next
  case (Other v)
  then show ?case by (simp add: add_node_other)
qed

lemma walk_edges_other: "\<not> is_ast v \<Longrightarrow> walk_edges m p f v = []"
  by (subst walk_edges.simps) (auto simp: is_ast_def split: pyobj.splits)

lemma walk_edges_mono:
  "m \<subseteq>\<^sub>m m' \<Longrightarrow> idents v \<subseteq> dom m \<Longrightarrow> walk_edges m' p f v = walk_edges m p f v"
proof (induction v arbitrary: p f rule: tree_induct)
  case (Obj i c fs)
  from Obj.prems(2) obtain nid where i: "m i = Some nid" by (auto simp: idents_Node)
  with Obj.prems(1) have i': "m' i = Some nid" by (auto simp: map_le_def dom_def)
  have eq: "map (\<lambda>(l, ch). walk_edges m' (Some nid) (Some l) ch) (child_refs fs)
        = map (\<lambda>(l, ch). walk_edges m (Some nid) (Some l) ch) (child_refs fs)"
  proof (rule map_cong [OF refl])
    fix x assume x: "x \<in> set (child_refs fs)"
    then have "idents (snd x) \<subseteq> dom m"
      using Obj.prems(2) by (auto simp: idents_Node)
    with Obj.IH [of "fst x" "snd x"] x Obj.prems(1)
    show "(case x of (l, ch) \<Rightarrow> walk_edges m' (Some nid) (Some l) ch)
          = (case x of (l, ch) \<Rightarrow> walk_edges m (Some nid) (Some l) ch)"
      by (simp add: case_prod_beta)
  qed
  show ?case unfolding walk_edges_Node by (simp only: i i' option.case eq)
next
  case (Other v)
  then show ?case by (simp add: walk_edges_other)
qed

lemma is_edge_edge_stmt [simp]: "filter is_edge (edge_stmt p nid f) = edge_stmt p nid f"
  by (simp add: edge_stmt_def split: option.splits)

lemma fold_err_edges:
  assumes "fold_err (\<lambda>(l, ch). add_node E I lim ch (Some nid) (Some l)) xs st = Inr st'"
    and "\<And>l ch s s1. (l, ch) \<in> set xs \<Longrightarrow> add_node E I lim ch (Some nid) (Some l) s = Inr s1
            \<Longrightarrow> filter is_edge (body s1)
                = filter is_edge (body s) @ walk_edges (node_ids s1) (Some nid) (Some l) ch"
  shows "filter is_edge (body st')
         = filter is_edge (body st)
           @ concat (map (\<lambda>(l, ch). walk_edges (node_ids st') (Some nid) (Some l) ch) xs)"
  using assms
proof (induction xs arbitrary: st)
  case Nil
  then show ?case by simp
next
  case (Cons x xs)
  obtain l ch where x: "x = (l, ch)" by (cases x)
  from Cons.prems(1) x obtain s1 where
    1: "add_node E I lim ch (Some nid) (Some l) st = Inr s1"
    and 2: "fold_err (\<lambda>(l, ch). add_node E I lim ch (Some nid) (Some l)) xs s1 = Inr st'"
    by (auto split: sum.splits)
  have e1: "filter is_edge (body s1)
            = filter is_edge (body st) @ walk_edges (node_ids s1) (Some nid) (Some l) ch"
    by (rule Cons.prems(2) [OF _ 1]) (simp add: x)
  have e2: "filter is_edge (body st')
            = filter is_edge (body s1)
              @ concat (map (\<lambda>(l, ch). walk_edges (node_ids st') (Some nid) (Some l) ch) xs)"
    by (rule Cons.IH [OF 2]) (rule Cons.prems(2), simp_all)
  from fold_err_grows [OF 2] have "node_ids s1 \<subseteq>\<^sub>m node_ids st'"
    by (simp add: grows_def)
  moreover from add_node_dom [OF 1] have "idents ch \<subseteq> dom (node_ids s1)" by simp
  ultimately have "walk_edges (node_ids st') (Some nid) (Some l) ch
                   = walk_edges (node_ids s1) (Some nid) (Some l) ch"
    by (rule walk_edges_mono)
  with e1 e2 show ?case by (simp add: x)
qed

lemma add_node_edges:
  "add_node E I lim v p f st = Inr st' \<Longrightarrow>
     filter is_edge (body st') = filter is_edge (body st) @ walk_edges (node_ids st') p f v"
proof (induction v arbitrary: lim p f st st' rule: tree_induct)
  case (Obj i c fs)
  from Obj.prems obtain lim' nid st1 where
    g: "get_nid E I (Node i c fs) st = Inr (nid, st1)"
    and a: "fold_err (\<lambda>(l, ch). add_node E I lim' ch (Some nid) (Some l)) (child_refs fs)
       (add_edge p nid f st1) = Inr st'"
    by (auto elim: add_node_InrE)
  have "filter is_edge (body st')
        = filter is_edge (body (add_edge p nid f st1))
          @ concat (map (\<lambda>(l, ch). walk_edges (node_ids st') (Some nid) (Some l) ch)
                      (child_refs fs))"
    using a by (rule fold_err_edges) (rule Obj.IH)
  moreover have "filter is_edge (body st1) = filter is_edge (body st)"
    using g by (auto elim!: get_nid_cases)
  moreover have "node_ids st' i = Some nid"
  proof -
    from g have "node_ids st1 i = Some nid" by (auto dest: get_nid_result(1))
    with fold_err_grows [OF a] show ?thesis
      by (auto dest: grows_lookup)
  qed
  ultimately show ?case by (simp add: walk_edges_Node)
next
  case (Other v)
  then show ?case by (simp add: add_node_other)
qed

lemma depth_other: "\<not> is_ast v \<Longrightarrow> depth v = 0"
  by (subst depth.simps) (auto simp: is_ast_def split: pyobj.splits)

lemma foldr_max_ge: "x \<in> set xs \<Longrightarrow> x \<le> foldr max xs (0::nat)"
  by (induction xs) auto

lemma foldr_max_le: "(\<And>x. x \<in> set xs \<Longrightarrow> x \<le> n) \<Longrightarrow> foldr max xs (0::nat) \<le> n"
  by (induction xs) auto

lemma depth_child: "(l, ch) \<in> set (child_refs fs) \<Longrightarrow> depth ch < depth (Node i c fs)"
proof -
  assume "(l, ch) \<in> set (child_refs fs)"
  then have "depth ch \<in> set (map (\<lambda>(l, ch). depth ch) (child_refs fs))"
    by force
  from foldr_max_ge [OF this] show ?thesis
    by (simp add: depth_Node)
qed

lemma depth_Node_gt:
  assumes "lim < depth (Node i c fs)" and "lim = Suc n"
  shows "\<exists>x\<in>set (child_refs fs). n < depth (snd x)"
proof (rule ccontr)
  assume neg: "\<not> ?thesis"
  have "foldr max (map (\<lambda>(l, ch). depth ch) (child_refs fs)) 0 \<le> n"
  proof (rule foldr_max_le)
    fix x assume "x \<in> set (map (\<lambda>(l, ch). depth ch) (child_refs fs))"
    with neg show "x \<le> n" by (auto simp: not_less)
  qed
  with assms show False
    by (simp add: depth_Node)
qed

lemma fold_err_revisit:
  assumes "\<And>l ch s. (l, ch) \<in> set xs \<Longrightarrow> node_ids s = m \<Longrightarrow>
             add_node E I lim ch (Some nid) (Some l) s
             = Inr (s\<lparr>body := body s @ walk_edges m (Some nid) (Some l) ch\<rparr>)"
    and "node_ids st = m"
  shows "fold_err (\<lambda>(l, ch). add_node E I lim ch (Some nid) (Some l)) xs st
         = Inr (st\<lparr>body := body st
                  @ concat (map (\<lambda>(l, ch). walk_edges m (Some nid) (Some l) ch) xs)\<rparr>)"
  using assms
proof (induction xs arbitrary: st)
  case Nil
  then show ?case by simp
next
  case (Cons x xs)
  obtain l ch where x: "x = (l, ch)" by (cases x)
  have 1: "add_node E I lim ch (Some nid) (Some l) st
           = Inr (st\<lparr>body := body st @ walk_edges m (Some nid) (Some l) ch\<rparr>)"
    by (rule Cons.prems(1)) (simp_all add: x Cons.prems(2))
  have 2: "fold_err (\<lambda>(l, ch). add_node E I lim ch (Some nid) (Some l)) xs
             (st\<lparr>body := body st @ walk_edges m (Some nid) (Some l) ch\<rparr>)
           = Inr (st\<lparr>body := body st @ walk_edges m (Some nid) (Some l) ch\<rparr>
                  \<lparr>body := body (st\<lparr>body := body st @ walk_edges m (Some nid) (Some l) ch\<rparr>)
                     @ concat (map (\<lambda>(l, ch). walk_edges m (Some nid) (Some l) ch) xs)\<rparr>)"
    by (rule Cons.IH) (rule Cons.prems(1), simp_all add: Cons.prems(2))
  show ?case by (simp add: x 1 2)
qed

lemma add_node_revisit:
  "idents v \<subseteq> dom (node_ids st) \<Longrightarrow> is_ast v \<Longrightarrow> depth v \<le> lim \<Longrightarrow>
     add_node E I lim v p f st = Inr (st\<lparr>body := body st @ walk_edges (node_ids st) p f v\<rparr>)"
proof (induction v arbitrary: lim p f st rule: tree_induct)
  case (Obj i c fs)
  from Obj.prems(3) obtain lim' where lim: "lim = Suc lim'"
    by (cases lim) (simp_all add: depth_Node)
  from Obj.prems(1) obtain nid where nid: "node_ids st i = Some nid"
    by (auto simp: idents_Node)
  then have g: "get_nid E I (Node i c fs) st = Inr (nid, st)"
    by (simp add: get_nid_old)
  define st1 where "st1 = st\<lparr>body := body st @ edge_stmt p nid f\<rparr>"
  have ae: "add_edge p nid f st = st1"
    by (simp add: st1_def add_edge_def edge_stmt_def split: option.splits)
  have "fold_err (\<lambda>(l, ch). add_node E I lim' ch (Some nid) (Some l)) (child_refs fs) st1
        = Inr (st1\<lparr>body := body st1
                 @ concat (map (\<lambda>(l, ch). walk_edges (node_ids st) (Some nid) (Some l) ch)
                             (child_refs fs))\<rparr>)"
  proof (rule fold_err_revisit)
    fix l ch and s :: walk_state
    assume ch: "(l, ch) \<in> set (child_refs fs)" and s: "node_ids s = node_ids st"
    have "add_node E I lim' ch (Some nid) (Some l) s
          = Inr (s\<lparr>body := body s @ walk_edges (node_ids s) (Some nid) (Some l) ch\<rparr>)"
    proof (rule Obj.IH [OF ch])
      from idents_child [OF ch, of i c] Obj.prems(1) s show "idents ch \<subseteq> dom (node_ids s)"
        by auto
      from ch show "is_ast ch" by (rule child_refs_ast)
      from depth_child [OF ch, of i c] Obj.prems(3) lim show "depth ch \<le> lim'" by simp
    qed
    with s show "add_node E I lim' ch (Some nid) (Some l) s
          = Inr (s\<lparr>body := body s @ walk_edges (node_ids st) (Some nid) (Some l) ch\<rparr>)"
      by simp
  qed (simp add: st1_def)
  then show ?case
    by (simp add: lim add_node_Node g ae walk_edges_Node nid) (simp add: st1_def)
next
  case (Other v)
  then show ?case by simp
qed

lemma fold_err_fuel_enough:
  assumes "fold_err (\<lambda>(l, ch). add_node E I lim' ch (q l) (g l)) xs st = Inr st'"
    and "\<And>l ch s s1. (l, ch) \<in> set xs \<Longrightarrow> add_node E I lim' ch (q l) (g l) s = Inr s1
           \<Longrightarrow> add_node E I lim ch (q l) (g l) s = Inr s1"
  shows "fold_err (\<lambda>(l, ch). add_node E I lim ch (q l) (g l)) xs st = Inr st'"
  using assms
proof (induction xs arbitrary: st)
  case Nil
  then show ?case by simp
next
  case (Cons x xs)
  obtain l ch where x: "x = (l, ch)" by (cases x)
  from Cons.prems(1) x obtain s1 where
    1: "add_node E I lim' ch (q l) (g l) st = Inr s1"
    and 2: "fold_err (\<lambda>(l, ch). add_node E I lim' ch (q l) (g l)) xs s1 = Inr st'"
    by (auto split: sum.splits)
  have "add_node E I lim ch (q l) (g l) st = Inr s1"
    by (rule Cons.prems(2) [OF _ 1]) (simp add: x)
  moreover have "fold_err (\<lambda>(l, ch). add_node E I lim ch (q l) (g l)) xs s1 = Inr st'"
    by (rule Cons.IH [OF 2]) (rule Cons.prems(2), simp_all)
  ultimately show ?case by (simp add: x)
qed

lemma fold_err_fuel_short:
  assumes "fold_err (\<lambda>(l, ch). add_node E I lim' ch (q l) (g l)) xs st = Inr st'"
    and "\<exists>x\<in>set xs. lim < depth (snd x)"
    and "\<And>l ch s s1. (l, ch) \<in> set xs \<Longrightarrow> add_node E I lim' ch (q l) (g l) s = Inr s1
           \<Longrightarrow> depth ch \<le> lim \<Longrightarrow> add_node E I lim ch (q l) (g l) s = Inr s1"
    and "\<And>l ch s s1. (l, ch) \<in> set xs \<Longrightarrow> add_node E I lim' ch (q l) (g l) s = Inr s1
           \<Longrightarrow> lim < depth ch \<Longrightarrow> add_node E I lim ch (q l) (g l) s = Inl RecursionError"
  shows "fold_err (\<lambda>(l, ch). add_node E I lim ch (q l) (g l)) xs st = Inl RecursionError"
  using assms
proof (induction xs arbitrary: st)
  case Nil
  then show ?case by simp
next
  case (Cons x xs)
  obtain l ch where x: "x = (l, ch)" by (cases x)
  from Cons.prems(1) x obtain s1 where
    1: "add_node E I lim' ch (q l) (g l) st = Inr s1"
    and 2: "fold_err (\<lambda>(l, ch). add_node E I lim' ch (q l) (g l)) xs s1 = Inr st'"
    by (auto split: sum.splits)
  show ?case
  proof (cases "lim < depth ch")
    case True
    have "add_node E I lim ch (q l) (g l) st = Inl RecursionError"
      by (rule Cons.prems(4) [OF _ 1 True]) (simp add: x)
    then show ?thesis by (simp add: x)
  next
    case False
    have "add_node E I lim ch (q l) (g l) st = Inr s1"
      by (rule Cons.prems(3) [OF _ 1]) (use False in \<open>simp_all add: x\<close>)
    moreover from Cons.prems(2) False have "\<exists>x\<in>set xs. lim < depth (snd x)"
      by (auto simp: x)
    then have "fold_err (\<lambda>(l, ch). add_node E I lim ch (q l) (g l)) xs s1 = Inl RecursionError"
      by (rule Cons.IH [OF 2]) (rule Cons.prems(3) Cons.prems(4), simp_all)+
    ultimately show ?thesis by (simp add: x)
  qed
qed

lemma add_node_fuel_both:
  "add_node E I lim' v p f st = Inr st' \<Longrightarrow>
     (depth v \<le> lim \<longrightarrow> add_node E I lim v p f st = Inr st')
     \<and> (lim < depth v \<longrightarrow> add_node E I lim v p f st = Inl RecursionError)"
proof (induction v arbitrary: lim lim' p f st st' rule: tree_induct)
  case (Obj i c fs)
  from Obj.prems obtain n' nid st1 where
    g: "get_nid E I (Node i c fs) st = Inr (nid, st1)"
    and a: "fold_err (\<lambda>(l, ch). add_node E I n' ch (Some nid) (Some l)) (child_refs fs)
       (add_edge p nid f st1) = Inr st'"
    by (auto elim: add_node_InrE)
  have enough: "add_node E I lim (Node i c fs) p f st = Inr st'"
    if le: "depth (Node i c fs) \<le> lim"
  proof -
    from le obtain n where lim: "lim = Suc n"
      by (cases lim) (simp_all add: depth_Node)
    have "fold_err (\<lambda>(l, ch). add_node E I n ch (Some nid) (Some l)) (child_refs fs)
            (add_edge p nid f st1) = Inr st'"
      using a
    proof (rule fold_err_fuel_enough)
      fix l ch s s1
      assume ch: "(l, ch) \<in> set (child_refs fs)"
        and s: "add_node E I n' ch (Some nid) (Some l) s = Inr s1"
      from depth_child [OF ch, of i c] le lim have "depth ch \<le> n" by simp
      with Obj.IH [OF ch s, of n] show "add_node E I n ch (Some nid) (Some l) s = Inr s1"
        by simp
    qed
    with g show ?thesis by (simp add: lim add_node_Node)
  qed
  have short: "add_node E I lim (Node i c fs) p f st = Inl RecursionError"
    if gt: "lim < depth (Node i c fs)"
  proof (cases lim)
    case 0
    then show ?thesis by simp
  next
    case (Suc n)
    have "fold_err (\<lambda>(l, ch). add_node E I n ch (Some nid) (Some l)) (child_refs fs)
            (add_edge p nid f st1) = Inl RecursionError"
      using a depth_Node_gt [OF gt Suc]
    proof (rule fold_err_fuel_short)
      fix l ch s s1
      assume ch: "(l, ch) \<in> set (child_refs fs)"
        and s: "add_node E I n' ch (Some nid) (Some l) s = Inr s1"
      show "depth ch \<le> n \<Longrightarrow> add_node E I n ch (Some nid) (Some l) s = Inr s1"
        using Obj.IH [OF ch s, of n] by simp
      show "n < depth ch \<Longrightarrow> add_node E I n ch (Some nid) (Some l) s = Inl RecursionError"
        using Obj.IH [OF ch s, of n] by simp
    qed
    with g show ?thesis by (simp add: Suc add_node_Node)
  qed
  from enough short show ?case by blast
next
  case (Other v)
  then show ?case by (simp add: add_node_other)
qed

lemma add_node_fuel:
  assumes "add_node E I lim' v p f st = Inr st'"
  shows "depth v \<le> lim \<Longrightarrow> add_node E I lim v p f st = Inr st'"
    and "lim < depth v \<Longrightarrow> add_node E I lim v p f st = Inl RecursionError"
  using add_node_fuel_both [OF assms, of lim] by simp_all

lemma add_node_depth_le:
  assumes "add_node E I lim v p f st = Inr st'"
  shows "depth v \<le> lim"
proof (rule ccontr)
  assume "\<not> depth v \<le> lim"
  then have "lim < depth v" by simp
  from add_node_fuel(2) [OF assms this] assms show False by simp
qed

section \<open>Labels of string constants\<close>

lemma length_replace_newline: "length val \<le> length (replace_newline val)"
  by (induction val) (simp_all add: replace_newline_def)

lemma newline_notin_replace_newline: "CHR 0x0A \<notin> set (replace_newline val)"
  by (induction val) (simp_all add: replace_newline_def)

lemma replace_newline_Cons:
  "replace_newline (c # s) =
     (if c = CHR 0x0A then [CHR 0x5C, CHR ''n''] else [c]) @ replace_newline s"
  by (simp add: replace_newline_def)

lemma const_payload_long:
  assumes "20 < length (replace_newline val)"
  shows "const_payload val = take 17 (replace_newline val) @ ''...''"
    and "length (const_payload val) = 20"
    and "CHR 0x0A \<notin> set (const_payload val)"
proof -
  show p: "const_payload val = take 17 (replace_newline val) @ ''...''"
    using assms by (simp add: const_payload_def Let_def)
  show "length (const_payload val) = 20"
    using assms by (simp add: p)
  have "set (take 17 (replace_newline val)) \<subseteq> set (replace_newline val)"
    by (rule set_take_subset)
  with newline_notin_replace_newline [of val] show "CHR 0x0A \<notin> set (const_payload val)"
    by (auto simp: p)
qed

lemma node_label_Constant:
  "map_of fs ''value'' = Some v \<Longrightarrow>
   node_label E I (Node i ''Constant'' fs) = bind_err (const_label v) (\<lambda>l. Inr (l, None))"
  by (simp add: node_label_def plain_label_def isinstance_def getattr_def bind_err_def)

text \<open>
  The quoted text as the claim words it: the first 17 characters of the value, every
  line feed among them shown as a backslash and an n, then three dots.
\<close>

definition claimed_payload :: "string \<Rightarrow> string" where
  "claimed_payload val = replace_newline (take 17 val) @ ''...''"

definition long_text :: string where
  "long_text = ''first line'' @ [CHR 0x0A] @ ''second line''"

definition cut_text :: string where
  "cut_text = ''aaaaaaaaaaaaaaaa'' @ [CHR 0x0A] @ ''bcde''"

text \<open>
  C4, as stated, fails for a value with a line feed among its first 17 characters: the
  line feed is replaced before the text is cut, and the two characters that stand for it
  count among the 17. For \<^verbatim>\<open>'first line\nsecond line'\<close> the label shows 16 characters of
  the value, not 17 (the text the claim describes would have 21 characters). For 16
  letters, a line feed and \<^verbatim>\<open>'bcde'\<close> the cut falls between the backslash and the n: the
  line feed is shown as a backslash alone.
\<close>

theorem newline_counts_toward_the_cut:
  "length long_text = 22
   \<and> node_label {} {} (Node 7 ''Constant'' [(''value'', PStr long_text), (''kind'', PNone)]) =
       Inr (''Constant: '' @ [CHR 0x22] @ ''first line'' @ [CHR 0x5C] @ ''nsecon...''
              @ [CHR 0x22], None)
   \<and> claimed_payload long_text = ''first line'' @ [CHR 0x5C] @ ''nsecond...''
   \<and> length (claimed_payload long_text) = 21
   \<and> length cut_text = 21
   \<and> node_label {} {} (Node 7 ''Constant'' [(''value'', PStr cut_text), (''kind'', PNone)]) =
       Inr (''Constant: '' @ [CHR 0x22] @ ''aaaaaaaaaaaaaaaa'' @ [CHR 0x5C] @ ''...''
              @ [CHR 0x22], None)"
  by code_simp

text \<open>
  C4, amended. A \<^verbatim>\<open>Constant\<close> node whose value is a string of more than 20 characters
  gets the label \<^verbatim>\<open>Constant: "..."\<close> whose quoted text has exactly 20 characters: the
  first 17 characters of the text that results from the value when every line feed is
  replaced by a backslash and an n, then three dots. No line feed is left in it; a
  replaced line feed at the cut may be left as its backslash alone.
\<close>

theorem constant_label_truncated:
  assumes "map_of fs ''value'' = Some (PStr val)" and "20 < length val"
  shows "node_label E I (Node i ''Constant'' fs) =
           Inr (''Constant: '' @ [CHR 0x22] @ const_payload val @ [CHR 0x22], None)
         \<and> const_payload val = take 17 (replace_newline val) @ ''...''
         \<and> length (const_payload val) = 20
         \<and> CHR 0x0A \<notin> set (const_payload val)"
proof -
  from assms(2) length_replace_newline [of val] have "20 < length (replace_newline val)"
    by simp
  then show ?thesis
    using const_payload_long [of val] node_label_Constant [OF assms(1), of E I i]
    by (simp add: const_label_def bind_err_def)
qed

theorem constant_label_truncated_witness:
  "20 < length long_text
   \<and> node_label {} {} (Node 7 ''Constant'' [(''value'', PStr long_text), (''kind'', PNone)]) =
       Inr (''Constant: '' @ [CHR 0x22] @ ''first line'' @ [CHR 0x5C] @ ''nsecon...''
              @ [CHR 0x22], None)
   \<and> length (const_payload long_text) = 20"
  using constant_label_truncated
    [of "[(''value'', PStr long_text), (''kind'', PNone)]" long_text "{}" "{}" 7]
  by (simp add: long_text_def const_payload_def replace_newline_def)

text \<open>
  C10. The limit of 20 characters is compared with the length of the text after the line
  feeds have been replaced: a string of at most 20 characters whose replaced text is
  longer than 20 is cut to the first 17 characters of the replaced text and three dots.
\<close>

theorem threshold_on_escaped_text:
  assumes "map_of fs ''value'' = Some (PStr val)"
    and "length val \<le> 20" and "20 < length (replace_newline val)"
  shows "node_label E I (Node i ''Constant'' fs) =
           Inr (''Constant: '' @ [CHR 0x22] @ take 17 (replace_newline val) @ ''...''
                  @ [CHR 0x22], None)"
  using const_payload_long(1) [OF assms(3)] node_label_Constant [OF assms(1), of E I i]
  by (simp add: const_label_def bind_err_def)

definition many_newlines :: string where
  "many_newlines = replicate 11 (CHR 0x0A)"

theorem threshold_on_escaped_text_witness:
  "length many_newlines = 11 \<and> length (replace_newline many_newlines) = 22
   \<and> node_label {} {} (Node 7 ''Constant'' [(''value'', PStr many_newlines)]) =
       Inr (''Constant: '' @ [CHR 0x22] @ concat (replicate 8 [CHR 0x5C, CHR ''n''])
              @ [CHR 0x5C] @ ''...'' @ [CHR 0x22], None)"
  using threshold_on_escaped_text
    [of "[(''value'', PStr many_newlines)]" many_newlines "{}" "{}" 7]
  by (simp add: many_newlines_def replace_newline_def eval_nat_numeral)

section \<open>The walk on trees that share objects\<close>

text \<open>
  \<^verbatim>\<open>Module(body=[e, e], type_ignores=[])\<close> with one object
  \<^verbatim>\<open>e = Expr(value=Name(id='a', ctx=Load()))\<close> in both places of the body.
\<close>

definition load_ctx :: pyobj where
  "load_ctx = Node 3 ''Load'' []"

definition name_a :: pyobj where
  "name_a = Node 2 ''Name'' [(''id'', PStr ''a''), (''ctx'', load_ctx)]"

definition expr_a :: pyobj where
  "expr_a = Node 1 ''Expr'' [(''value'', name_a)]"

definition shared_module :: pyobj where
  "shared_module =
     Node 0 ''Module'' [(''body'', PList [expr_a, expr_a]), (''type_ignores'', PList [])]"

text \<open>The graph body of a finished walk, or its failure.\<close>

definition result_body :: "py_error + walk_state \<Rightarrow> py_error + stmt list" where
  "result_body r = (case r of Inl e \<Rightarrow> Inl e | Inr st \<Rightarrow> Inr (body st))"


text \<open>
  C1, as stated, fails: the second reference to the \<^verbatim>\<open>Expr\<close> object adds its incoming
  edge \<^verbatim>\<open>body[1]\<close> and then the edges \<^verbatim>\<open>value\<close> and \<^verbatim>\<open>ctx\<close> below it a second time.
\<close>

theorem revisit_emits_subtree_edges_again:
  "result_body (add_node {} {} 10 shared_module None None initial) =
     Inr [NodeStmt ''node0'' ''Module'' None,
          NodeStmt ''node1'' ''Expr'' None,
          EdgeStmt ''node0'' ''node1'' ''body[0]'',
          NodeStmt ''node2'' ''Name: a (Load)'' None,
          EdgeStmt ''node1'' ''node2'' ''value'',
          NodeStmt ''node3'' ''Load'' None,
          EdgeStmt ''node2'' ''node3'' ''ctx'',
          EdgeStmt ''node0'' ''node1'' ''body[1]'',
          EdgeStmt ''node1'' ''node2'' ''value'',
          EdgeStmt ''node2'' ''node3'' ''ctx'']"
  by code_simp

text \<open>
  C1, amended. When an object and everything below it are already in \<^verbatim>\<open>node_ids\<close>, a
  further call of \<^verbatim>\<open>add_node\<close> on it (within the recursion limit) takes no new graph
  name, adds no node and leaves the table and the counter as they are; it adds the new
  incoming edge and then walks the fields again, so it adds every edge below the object
  once more.
\<close>

theorem revisit_walks_again:
  assumes "idents v \<subseteq> dom (node_ids st)" and "is_ast v" and "depth v \<le> lim"
  shows "add_node E I lim v p f st
         = Inr (st\<lparr>body := body st @ walk_edges (node_ids st) p f v\<rparr>)"
  using assms by (rule add_node_revisit)

definition seen_state :: walk_state where
  "seen_state =
     \<lparr>node_counter = 4,
      node_ids = [0 \<mapsto> ''node0'', 1 \<mapsto> ''node1'', 2 \<mapsto> ''node2'', 3 \<mapsto> ''node3''],
      body = []\<rparr>"

lemma subnodes_expr_a: "subnodes expr_a = [expr_a, name_a, load_ctx]"
  by code_simp

lemma depth_expr_a: "depth expr_a = 3"
  by code_simp

lemma walk_edges_expr_a:
  "walk_edges (node_ids seen_state) (Some ''node0'') (Some ''body[1]'') expr_a
   = [EdgeStmt ''node0'' ''node1'' ''body[1]'',
      EdgeStmt ''node1'' ''node2'' ''value'',
      EdgeStmt ''node2'' ''node3'' ''ctx'']"
  by (simp add: walk_edges_Node seen_state_def expr_a_def name_a_def load_ctx_def edge_stmt_def)

theorem revisit_walks_again_witness:
  "add_node {} {} 5 expr_a (Some ''node0'') (Some ''body[1]'') seen_state
   = Inr (seen_state\<lparr>body := [EdgeStmt ''node0'' ''node1'' ''body[1]'',
                               EdgeStmt ''node1'' ''node2'' ''value'',
                               EdgeStmt ''node2'' ''node3'' ''ctx'']\<rparr>)"
proof -
  have 1: "idents expr_a \<subseteq> dom (node_ids seen_state)"
    by (simp add: idents_def subnodes_expr_a)
      (simp add: expr_a_def name_a_def load_ctx_def seen_state_def)
  have 2: "is_ast expr_a" by (simp add: expr_a_def)
  have 3: "depth expr_a \<le> 5" by (simp add: depth_expr_a)
  from revisit_walks_again [OF 1 2 3, of "{}" "{}" "Some ''node0''" "Some ''body[1]''"]
  show ?thesis
    by (simp add: walk_edges_expr_a) (simp add: seen_state_def)
qed

section \<open>The order of the recursion\<close>

text \<open>The statement \<^verbatim>\<open>x = 1\<close>, as \<^verbatim>\<open>ast.parse\<close> returns it, alone in a module.\<close>

definition assign_fields :: "(string \<times> pyobj) list" where
  "assign_fields =
     [(''targets'', PList [Node 2 ''Name'' [(''id'', PStr ''x''), (''ctx'', Node 3 ''Store'' [])]]),
      (''value'', Node 4 ''Constant'' [(''value'', PInt 1), (''kind'', PNone)]),
      (''type_comment'', PNone)]"

definition assign_stmt :: pyobj where
  "assign_stmt = Node 1 ''Assign'' assign_fields"

definition assign_module :: pyobj where
  "assign_module =
     Node 0 ''Module'' [(''body'', PList [assign_stmt]), (''type_ignores'', PList [])]"

text \<open>The order the claim states: the fields that hold an object first, then the lists.\<close>

definition scalar_fields_first :: "(string \<times> pyobj) list \<Rightarrow> (string \<times> pyobj) list" where
  "scalar_fields_first fs =
     child_refs (filter (\<lambda>(field, v). is_ast v) fs)
     @ child_refs (filter (\<lambda>(field, v). \<not> is_ast v) fs)"

text \<open>
  C7, as stated, fails: \<^verbatim>\<open>Assign\<close> declares the list \<^verbatim>\<open>targets\<close> before the object
  \<^verbatim>\<open>value\<close>, and the walk follows \<^verbatim>\<open>targets[0]\<close> (and what is below it) before \<^verbatim>\<open>value\<close>.
\<close>

theorem list_field_before_scalar_field:
  "result_body (add_node {} {} 10 assign_module None None initial) =
     Inr [NodeStmt ''node0'' ''Module'' None,
          NodeStmt ''node1'' ''Assign: x = ...'' None,
          EdgeStmt ''node0'' ''node1'' ''body[0]'',
          NodeStmt ''node2'' ''Name: x (Store)'' None,
          EdgeStmt ''node1'' ''node2'' ''targets[0]'',
          NodeStmt ''node3'' ''Store'' None,
          EdgeStmt ''node2'' ''node3'' ''ctx'',
          NodeStmt ''node4'' ''Constant: 1'' None,
          EdgeStmt ''node1'' ''node4'' ''value'']
   \<and> map fst (child_refs assign_fields) = [''targets[0]'', ''value'']
   \<and> map fst (scalar_fields_first assign_fields) = [''value'', ''targets[0]'']"
  by code_simp

text \<open>
  C7, amended. After the node has its graph name and its incoming edge, \<^verbatim>\<open>add_node\<close>
  calls itself on the sub-objects in the order of \<open>child_refs\<close>: field by field in the
  order \<^verbatim>\<open>ast.iter_fields\<close> yields them, a list in index order at the place of its
  field, with the field name as edge label for a field that holds an object and
  \<^verbatim>\<open>field[index]\<close> for an element of a list.
\<close>

theorem fields_walked_in_declared_order:
  "add_node E I (Suc lim) (Node i c fs) p f st =
     (case get_nid E I (Node i c fs) st of
        Inl e \<Rightarrow> Inl e
      | Inr (nid, st1) \<Rightarrow>
          fold_err (\<lambda>(label, child). add_node E I lim child (Some nid) (Some label))
            (child_refs fs) (add_edge p nid f st1))"
  by (rule add_node_Node)

section \<open>Nesting depth\<close>








section \<open>Lemmas about the search for calls and the classification\<close>

lemma elem_refs_snd: "map snd (elem_refs f idx xs) = filter is_ast xs"
  by (induction xs arbitrary: idx) simp_all

lemma field_children_child_refs: "field_children fs = map snd (child_refs fs)"
proof (induction fs)
  case Nil
  show ?case by simp
next
  case (Cons p fs)
  obtain f v where p: "p = (f, v)" by (cases p)
  show ?case unfolding p by (cases v) (simp_all add: Cons.IH elem_refs_snd)
qed

lemma visit_items_fold:
  "visit_items lim cf xs acc = fold_err (visit lim cf) (filter is_ast xs) acc"
proof (induction xs arbitrary: acc)
  case Nil
  show ?case by simp
next
  case (Cons x xs)
  show ?case by (cases x) (simp_all add: Cons.IH is_ast_def split: sum.splits)
qed

lemma generic_visit_fold:
  "generic_visit lim cf fs acc = fold_err (visit lim cf) (field_children fs) acc"
proof (induction fs arbitrary: acc)
  case Nil
  show ?case by simp
next
  case (Cons p fs)
  obtain f v where p: "p = (f, v)" by (cases p)
  show ?case unfolding p
    by (cases v) (simp_all add: Cons.IH visit_items_fold fold_err_append split: sum.splits)
qed

lemma visit_0 [simp]: "visit 0 cf v acc = Inl RecursionError"
  by (simp add: visit.simps)

lemma visit_Node:
  "visit (Suc lim) cf (Node i c fs) acc =
     (case visit_enter cf (Node i c fs) acc of
        Inl e \<Rightarrow> Inl e
      | Inr (cf', calls) \<Rightarrow> fold_err (visit lim cf') (map snd (child_refs fs)) calls)"
  by (auto simp: visit.simps generic_visit_fold field_children_child_refs split: sum.splits)

lemma visit_other: "\<not> is_ast v \<Longrightarrow> visit lim cf v acc \<noteq> Inr acc'"
  by (cases v; cases lim) (simp_all add: visit.simps is_ast_def)

lemma visit_InrE:
  assumes "visit lim cf v acc = Inr acc'"
  obtains lim' i c fs cf' calls where "lim = Suc lim'" "v = Node i c fs"
    "visit_enter cf v acc = Inr (cf', calls)"
    "fold_err (visit lim' cf') (map snd (child_refs fs)) calls = Inr acc'"
proof (cases lim)
  case 0
  with assms show ?thesis by simp
next
  case (Suc lim')
  show ?thesis
  proof (cases "is_ast v")
    case True
    then obtain i c fs where "v = Node i c fs" by (auto simp: is_ast_iff)
    with assms Suc that show ?thesis
      by (auto simp: visit_Node split: sum.splits)
  next
    case False
    with assms show ?thesis by (simp add: visit_other)
  qed
qed

text \<open>What \<open>visit\<close> may add to \<^verbatim>\<open>yaml_load_calls\<close> below an object.\<close>

definition recorded :: "pyobj \<Rightarrow> (pyobj \<times> pyobj) set" where
  "recorded v = {(c, fn). c \<in> set (subnodes v) \<and> is_yaml_load c = Inr True}"

lemma recorded_child:
  "(l, ch) \<in> set (child_refs fs) \<Longrightarrow> recorded ch \<subseteq> recorded (Node i c fs)"
  by (force simp: recorded_def subnodes_Node)

lemma visit_enter_records:
  assumes "visit_enter cf v acc = Inr (cf', calls)" and "is_ast v"
  shows "set calls \<subseteq> set acc \<union> recorded v"
proof -
  from assms(2) have "v \<in> set (subnodes v)"
    by (auto simp: is_ast_iff subnodes_Node)
  with assms(1) show ?thesis
    by (auto simp: visit_enter_def bind_err_def recorded_def split: if_splits sum.splits)
qed

lemma fold_err_subset:
  assumes "fold_err step xs st = Inr st'"
    and "\<And>x s s'. x \<in> set xs \<Longrightarrow> step x s = Inr s' \<Longrightarrow> set s' \<subseteq> set s \<union> A"
  shows "set st' \<subseteq> set st \<union> A"
proof -
  have "set st' \<subseteq> set st \<union> A"
    using assms(1)
  proof (rule fold_err_rel [where R = "\<lambda>a b. set b \<subseteq> set a \<union> A"])
    fix x s s' assume "x \<in> set xs" "step x s = Inr s'"
    then show "set s' \<subseteq> set s \<union> A" by (rule assms(2))
  qed auto
  then show ?thesis .
qed

lemma visit_records:
  "visit lim cf v acc = Inr acc' \<Longrightarrow> set acc' \<subseteq> set acc \<union> recorded v"
proof (induction v arbitrary: lim cf acc acc' rule: tree_induct)
  case (Obj i c fs)
  from Obj.prems obtain lim' cf' calls where
    e: "visit_enter cf (Node i c fs) acc = Inr (cf', calls)"
    and a: "fold_err (visit lim' cf') (map snd (child_refs fs)) calls = Inr acc'"
    by (auto elim: visit_InrE)
  have "set acc' \<subseteq> set calls \<union> recorded (Node i c fs)"
    using a
  proof (rule fold_err_subset)
    fix x s s'
    assume x: "x \<in> set (map snd (child_refs fs))" and s: "visit lim' cf' x s = Inr s'"
    from x obtain l where l: "(l, x) \<in> set (child_refs fs)" by auto
    from Obj.IH [OF l s] recorded_child [OF l, of i c]
    show "set s' \<subseteq> set s \<union> recorded (Node i c fs)" by auto
  qed
  with visit_enter_records [OF e] show ?case by auto
next
  case (Other v)
  then show ?case by (simp add: visit_other)
qed

lemma classify_sets:
  "classify calls (E0, I0) = Inr (E, I) \<Longrightarrow>
     E0 \<subseteq> E \<and> I0 \<subseteq> I \<and> E \<union> I \<subseteq> E0 \<union> I0 \<union> (ident \<circ> fst) ` set calls
     \<and> (\<forall>(c, fn)\<in>set calls. \<exists>b. classify_call c fn = Inr b
            \<and> (if b then ident c \<in> E else ident c \<in> I))"
proof (induction calls arbitrary: E0 I0)
  case Nil
  then show ?case by simp
next
  case (Cons x calls)
  obtain c fn where x: "x = (c, fn)" by (cases x)
  from Cons.prems x obtain b where b: "classify_call c fn = Inr b"
    by (auto split: sum.splits)
  show ?case
  proof (cases b)
    case True
    with Cons.prems x b have "classify calls (insert (ident c) E0, I0) = Inr (E, I)" by simp
    from Cons.IH [OF this] b True show ?thesis
      by (auto simp: x)
  next
    case False
    with Cons.prems x b have "classify calls (E0, insert (ident c) I0) = Inr (E, I)" by simp
    from Cons.IH [OF this] b False show ?thesis
      by (auto simp: x)
  qed
qed

lemma classify_disjoint:
  "classify calls (E0, I0) = Inr (E, I) \<Longrightarrow> distinct (map (\<lambda>p. ident (fst p)) calls)
     \<Longrightarrow> E0 \<inter> I0 = {} \<Longrightarrow> (E0 \<union> I0) \<inter> (\<lambda>p. ident (fst p)) ` set calls = {} \<Longrightarrow> E \<inter> I = {}"
proof (induction calls arbitrary: E0 I0)
  case Nil
  then show ?case by simp
next
  case (Cons x calls)
  obtain c fn where x: "x = (c, fn)" by (cases x)
  from Cons.prems(1) x obtain b where b: "classify_call c fn = Inr b"
    by (auto split: sum.splits)
  from Cons.prems(2) x have d: "distinct (map (\<lambda>p. ident (fst p)) calls)"
    and new: "ident c \<notin> (\<lambda>p. ident (fst p)) ` set calls" by auto
  from Cons.prems(4) x have fresh: "ident c \<notin> E0" "ident c \<notin> I0"
    and rest: "(E0 \<union> I0) \<inter> (\<lambda>p. ident (fst p)) ` set calls = {}" by auto
  show ?case
  proof (cases b)
    case True
    with Cons.prems(1) x b have "classify calls (insert (ident c) E0, I0) = Inr (E, I)" by simp
    then show ?thesis
    proof (rule Cons.IH [OF _ d])
      from Cons.prems(3) fresh show "insert (ident c) E0 \<inter> I0 = {}" by simp
      from rest new show "(insert (ident c) E0 \<union> I0) \<inter> (\<lambda>p. ident (fst p)) ` set calls = {}"
        by auto
    qed
  next
    case False
    with Cons.prems(1) x b have "classify calls (E0, insert (ident c) I0) = Inr (E, I)" by simp
    then show ?thesis
    proof (rule Cons.IH [OF _ d])
      from Cons.prems(3) fresh show "E0 \<inter> insert (ident c) I0 = {}" by simp
      from rest new show "(E0 \<union> insert (ident c) I0) \<inter> (\<lambda>p. ident (fst p)) ` set calls = {}"
        by auto
    qed
  qed
qed

lemma consistent_same:
  "consistent tree \<Longrightarrow> x \<in> set (subnodes tree) \<Longrightarrow> y \<in> set (subnodes tree)
     \<Longrightarrow> ident x = ident y \<Longrightarrow> x = y"
  by (auto simp: consistent_def list_all_iff)

lemma unmatched_not_classified:
  assumes v: "visit lim cf tree [] = Inr calls"
    and c: "classify calls ({}, {}) = Inr (E, I)"
    and con: "consistent tree"
    and x: "x \<in> set (subnodes tree)"
    and no: "is_yaml_load x \<noteq> Inr True"
  shows "ident x \<notin> E" and "ident x \<notin> I"
proof -
  have "ident x \<notin> E \<union> I"
  proof
    assume "ident x \<in> E \<union> I"
    with classify_sets [OF c] obtain y fn where y: "(y, fn) \<in> set calls" "ident y = ident x"
      by fastforce
    with visit_records [OF v] have "y \<in> set (subnodes tree)" "is_yaml_load y = Inr True"
      by (auto simp: recorded_def)
    with consistent_same [OF con _ x] y no show False by auto
  qed
  then show "ident x \<notin> E" and "ident x \<notin> I" by simp_all
qed









lemma call_base_last: "call_base x = Inr base \<Longrightarrow> last base = CHR '')''"
  by (auto simp: call_base_def bind_err_def split: sum.splits)

lemma node_label_Call:
  "isinstance x ''Call'' \<Longrightarrow> node_label E I x = call_label E I x"
  by (simp add: node_label_def)

section \<open>The verdict for a recorded call\<close>

text \<open>
  A module in the shape of the script's input: a function \<^verbatim>\<open>_external_load\<close> that returns
  \<^verbatim>\<open>yaml.load('a: 1')\<close>, a function \<^verbatim>\<open>local\<close> that calls \<^verbatim>\<open>yaml.load(text)\<close>, and the
  statement \<^verbatim>\<open>', '.join(mods)\<close>. The parser shares one \<^verbatim>\<open>Load\<close> object among all
  expressions.
\<close>

definition shared_load :: pyobj where
  "shared_load = Node 99 ''Load'' []"

definition yaml_load_func :: "nat \<Rightarrow> nat \<Rightarrow> pyobj" where
  "yaml_load_func i j =
     Node i ''Attribute''
       [(''value'', Node j ''Name'' [(''id'', PStr ''yaml''), (''ctx'', shared_load)]),
        (''attr'', PStr ''load''), (''ctx'', shared_load)]"

definition call_a :: pyobj where
  "call_a =
     Node 5 ''Call''
       [(''func'', yaml_load_func 6 7),
        (''args'', PList [Node 8 ''Constant'' [(''value'', PStr ''a: 1''), (''kind'', PNone)]]),
        (''keywords'', PList [])]"

definition name_text :: pyobj where
  "name_text = Node 18 ''Name'' [(''id'', PStr ''text''), (''ctx'', shared_load)]"

definition call_c :: pyobj where
  "call_c =
     Node 15 ''Call''
       [(''func'', yaml_load_func 16 17), (''args'', PList [name_text]), (''keywords'', PList [])]"

definition join_func :: pyobj where
  "join_func =
     Node 23 ''Attribute''
       [(''value'', Node 24 ''Constant'' [(''value'', PStr '', ''), (''kind'', PNone)]),
        (''attr'', PStr ''join''), (''ctx'', shared_load)]"

definition join_call :: pyobj where
  "join_call =
     Node 22 ''Call''
       [(''func'', join_func),
        (''args'', PList [Node 25 ''Name'' [(''id'', PStr ''mods''), (''ctx'', shared_load)]]),
        (''keywords'', PList [])]"

definition arguments :: "nat \<Rightarrow> pyobj list \<Rightarrow> pyobj" where
  "arguments i args =
     Node i ''arguments''
       [(''posonlyargs'', PList []), (''args'', PList args), (''vararg'', PNone),
        (''kwonlyargs'', PList []), (''kw_defaults'', PList []), (''kwarg'', PNone),
        (''defaults'', PList [])]"

definition function_def :: "nat \<Rightarrow> string \<Rightarrow> pyobj \<Rightarrow> pyobj list \<Rightarrow> pyobj" where
  "function_def i name args stmts =
     Node i ''FunctionDef''
       [(''name'', PStr name), (''args'', args), (''body'', PList stmts),
        (''decorator_list'', PList []), (''returns'', PNone), (''type_comment'', PNone)]"

definition server_module :: pyobj where
  "server_module =
     Node 0 ''Module''
       [(''body'', PList
          [function_def 1 ''_external_load''
             (arguments 2 [Node 3 ''arg'' [(''arg'', PStr ''data''), (''annotation'', PNone),
                                           (''type_comment'', PNone)]])
             [Node 4 ''Return'' [(''value'', call_a)]],
           function_def 11 ''local'' (arguments 12 []) [Node 14 ''Expr'' [(''value'', call_c)]],
           Node 21 ''Expr'' [(''value'', join_call)]]),
        (''type_ignores'', PList [])]"

lemma server_module_calls:
  "visit 20 PNone server_module [] = Inr [(call_a, PStr ''_external_load''), (call_c, PStr ''local'')]"
  by code_simp

lemma classify_call_a: "classify_call call_a (PStr ''_external_load'') = Inr True"
  by code_simp

lemma classify_call_c: "classify_call call_c (PStr ''local'') = Inr False"
  by code_simp

lemma server_module_sets:
  "classify [(call_a, PStr ''_external_load''), (call_c, PStr ''local'')] ({}, {}) = Inr ({5}, {15})"
  by (simp add: classify_call_a classify_call_c) (simp add: call_a_def call_c_def)




section \<open>Marks on call nodes\<close>

text \<open>
  C8. The label of a call node carries one mark at most: \<^verbatim>\<open>[external]\<close> with the colour
  \<^verbatim>\<open>lightcoral\<close> when the call is in \<^verbatim>\<open>external_calls\<close>, else \<^verbatim>\<open>[internal]\<close> with
  \<^verbatim>\<open>lightblue\<close> when it is in \<^verbatim>\<open>internal_calls\<close>, else none. A call that is not
  \<^verbatim>\<open>yaml.load\<close> is in neither set, and its label is the plain
  \<^verbatim>\<open>Call: name (args=n)\<close>, which ends in a parenthesis, with no colour. When no call
  object was recorded twice, the two sets have no element in common.
\<close>

theorem call_tags_exclusive:
  assumes "visit lim PNone tree [] = Inr calls"
    and "classify calls ({}, {}) = Inr (E, I)"
    and "consistent tree" and "x \<in> set (subnodes tree)" and "isinstance x ''Call''"
    and "node_label E I x = Inr (label, fill)"
  shows "\<exists>base. call_base x = Inr base \<and> last base = CHR '')''
           \<and> (if ident x \<in> E then label = base @ '' [external]'' \<and> fill = Some ''lightcoral''
               else if ident x \<in> I then label = base @ '' [internal]'' \<and> fill = Some ''lightblue''
               else label = base \<and> fill = None)
           \<and> (is_yaml_load x = Inr False
                \<longrightarrow> ident x \<notin> E \<and> ident x \<notin> I \<and> label = base \<and> fill = None)
           \<and> (distinct (map (\<lambda>p. ident (fst p)) calls) \<longrightarrow> E \<inter> I = {})"
proof -
  from assms(5,6) have l: "call_label E I x = Inr (label, fill)"
    by (simp add: node_label_Call)
  then obtain base where b: "call_base x = Inr base"
    by (auto simp: call_label_def bind_err_def split: sum.splits)
  from l b have tag:
    "if ident x \<in> E then label = base @ '' [external]'' \<and> fill = Some ''lightcoral''
     else if ident x \<in> I then label = base @ '' [internal]'' \<and> fill = Some ''lightblue''
     else label = base \<and> fill = None"
    by (auto simp: call_label_def bind_err_def split: if_splits)
  have "ident x \<notin> E \<and> ident x \<notin> I \<and> label = base \<and> fill = None"
    if no: "is_yaml_load x = Inr False"
  proof -
    from no have "is_yaml_load x \<noteq> Inr True" by simp
    from unmatched_not_classified [OF assms(1,2,3,4) this] tag show ?thesis by simp
  qed
  moreover have "E \<inter> I = {}" if "distinct (map (\<lambda>p. ident (fst p)) calls)"
    by (rule classify_disjoint [OF assms(2) that]) simp_all
  ultimately show ?thesis using b tag call_base_last [OF b] by blast
qed

lemma consistent_server_module: "consistent server_module"
  by code_simp

lemma join_call_in_server_module: "join_call \<in> set (subnodes server_module)"
  by code_simp

lemma join_call_label: "node_label {5} {15} join_call = Inr (''Call: join (args=1)'', None)"
  by code_simp

lemma join_call_unmatched: "is_yaml_load join_call = Inr False"
  by code_simp

theorem call_tags_exclusive_witness:
  "visit 20 PNone server_module [] = Inr [(call_a, PStr ''_external_load''), (call_c, PStr ''local'')]
   \<and> classify [(call_a, PStr ''_external_load''), (call_c, PStr ''local'')] ({}, {}) = Inr ({5}, {15})
   \<and> node_label {5} {15} call_a = Inr (''Call: yaml.load (args=1) [external]'', Some ''lightcoral'')
   \<and> node_label {5} {15} call_c = Inr (''Call: yaml.load (args=1) [internal]'', Some ''lightblue'')
   \<and> node_label {5} {15} join_call = Inr (''Call: join (args=1)'', None)
   \<and> is_yaml_load join_call = Inr False
   \<and> ident join_call \<notin> {5} \<and> ident join_call \<notin> {15}
   \<and> call_base join_call = Inr ''Call: join (args=1)''
   \<and> distinct (map (\<lambda>p. ident (fst p)) [(call_a, PStr ''_external_load''), (call_c, PStr ''local'')])"
proof -
  have c: "isinstance join_call ''Call''" by code_simp
  have d: "distinct (map (\<lambda>p. ident (fst p)) [(call_a, PStr ''_external_load''), (call_c, PStr ''local'')])"
    by code_simp
  from call_tags_exclusive [OF server_module_calls server_module_sets consistent_server_module
      join_call_in_server_module c join_call_label] join_call_unmatched
  have "ident join_call \<notin> {5} \<and> ident join_call \<notin> {15}
        \<and> call_base join_call = Inr ''Call: join (args=1)''"
    by auto
  moreover have "node_label {5} {15} call_a
                 = Inr (''Call: yaml.load (args=1) [external]'', Some ''lightcoral'')"
    by code_simp
  moreover have "node_label {5} {15} call_c
                 = Inr (''Call: yaml.load (args=1) [internal]'', Some ''lightblue'')"
    by code_simp
  ultimately show ?thesis
    using server_module_calls server_module_sets join_call_label join_call_unmatched d by simp
qed

section \<open>The name of the called function\<close>

text \<open>
  The dotted name of an expression that is a name, or an attribute access on an
  expression that has a dotted name, following at most \<open>n\<close> attribute accesses; the
  texts are those the f-strings of lines 94 to 100 give.
\<close>

fun dotted_name :: "nat \<Rightarrow> pyobj \<Rightarrow> (py_error + string) option" where
  "dotted_name n v =
     (if isinstance v ''Name'' then Some (fmt_attr v ''id'')
      else if isinstance v ''Attribute'' then
        (case n of
           0 \<Rightarrow> None
         | Suc m \<Rightarrow>
             (case getattr v ''value'' of
                Inl e \<Rightarrow> Some (Inl e)
              | Inr r \<Rightarrow>
                  (case dotted_name m r of
                     None \<Rightarrow> None
                   | Some pre \<Rightarrow>
                       Some (bind_err pre (\<lambda>a.
                             bind_err (fmt_attr v ''attr'') (\<lambda>b. Inr (a @ ''.'' @ b)))))))
      else None)"

declare dotted_name.simps [simp del]

lemma dotted_name_0:
  "dotted_name 0 v = (if isinstance v ''Name'' then Some (fmt_attr v ''id'') else None)"
  by (simp add: dotted_name.simps)

lemma dotted_name_Suc:
  "dotted_name (Suc m) v =
     (if isinstance v ''Name'' then Some (fmt_attr v ''id'')
      else if isinstance v ''Attribute'' then
        (case getattr v ''value'' of
           Inl e \<Rightarrow> Some (Inl e)
         | Inr r \<Rightarrow>
             (case dotted_name m r of
                None \<Rightarrow> None
              | Some pre \<Rightarrow>
                  Some (bind_err pre (\<lambda>a.
                        bind_err (fmt_attr v ''attr'') (\<lambda>b. Inr (a @ ''.'' @ b))))))
      else None)"
  by (simp add: dotted_name.simps)

lemma isinstance_excl: "isinstance v ''Name'' \<Longrightarrow> \<not> isinstance v ''Attribute''"
  by (auto simp: isinstance_def split: pyobj.splits)

lemma call_func_name_dotted:
  assumes "getattr node ''func'' = Inr func"
  shows "call_func_name node =
           (case dotted_name 2 func of
              Some r \<Rightarrow> r
            | None \<Rightarrow>
                if isinstance func ''Attribute'' then fmt_attr func ''attr''
                else Inr (type_name node))"
proof (cases "isinstance func ''Name''")
  case True
  with assms show ?thesis
    by (simp add: call_func_name_def bind_err_def dotted_name_Suc eval_nat_numeral)
next
  case nf: False
  show ?thesis
  proof (cases "isinstance func ''Attribute''")
    case False
    with nf assms show ?thesis
      by (simp add: call_func_name_def bind_err_def dotted_name_Suc eval_nat_numeral)
  next
    case af: True
    show ?thesis
    proof (cases "getattr func ''value''")
      case (Inl e)
      with nf af assms show ?thesis
        by (simp add: call_func_name_def bind_err_def dotted_name_Suc eval_nat_numeral)
    next
      case (Inr v)
      show ?thesis
      proof (cases "isinstance v ''Name''")
        case True
        with nf af assms Inr show ?thesis
          by (simp add: call_func_name_def bind_err_def dotted_name_Suc dotted_name_0
              eval_nat_numeral split: sum.splits)
      next
        case nv: False
        show ?thesis
        proof (cases "isinstance v ''Attribute''")
          case False
          with nv nf af assms Inr show ?thesis
            by (simp add: call_func_name_def bind_err_def dotted_name_Suc dotted_name_0
                eval_nat_numeral)
        next
          case av: True
          show ?thesis
          proof (cases "getattr v ''value''")
            case (Inl e)
            with av nv nf af assms Inr show ?thesis
              by (simp add: call_func_name_def bind_err_def dotted_name_Suc dotted_name_0
                  eval_nat_numeral)
          next
            case vv: (Inr vv)
            with av nv nf af assms Inr show ?thesis
              by (simp add: call_func_name_def bind_err_def dotted_name_Suc dotted_name_0
                  eval_nat_numeral split: sum.splits)
          qed
        qed
      qed
    qed
  qed
qed

lemma yaml_load_dotted:
  assumes "getattr node ''func'' = Inr func" and "dotted_name 2 func = None"
  shows "is_yaml_load node \<noteq> Inr True"
proof
  assume y: "is_yaml_load node = Inr True"
  with assms(1) obtain v where a: "isinstance func ''Attribute''"
    and v: "getattr func ''value'' = Inr v" and n: "isinstance v ''Name''"
    by (auto simp: is_yaml_load_def bind_err_def split: if_splits sum.splits)
  from a have "\<not> isinstance func ''Name''" by (auto dest: isinstance_excl)
  with a v n assms(2) show False
    by (simp add: dotted_name_Suc dotted_name_0 eval_nat_numeral)
qed

text \<open>
  C6, as stated, fails: in \<^verbatim>\<open>', '.join(mods)\<close> the called expression is an attribute
  access on a constant, which has no dotted name; the label names the attribute \<^verbatim>\<open>join\<close>,
  not the kind \<^verbatim>\<open>Call\<close> of the node.
\<close>

theorem attribute_callee_labelled_by_attr:
  "dotted_name 2 join_func = None
   \<and> type_name join_call = ''Call''
   \<and> node_label {5} {15} join_call = Inr (''Call: join (args=1)'', None)"
  by code_simp

text \<open>
  C6, amended. The name in the label of a call is the dotted name of the called
  expression when following at most two attribute accesses reaches a name (\<^verbatim>\<open>a\<close>,
  \<^verbatim>\<open>a.b\<close>, \<^verbatim>\<open>a.b.c\<close>). Otherwise it is the last attribute name when the called
  expression is an attribute access, and the kind name of the call node when it is
  neither a name nor an attribute access. In both of these cases the call is in neither
  \<^verbatim>\<open>external_calls\<close> nor \<^verbatim>\<open>internal_calls\<close> and its label has no mark.
\<close>

theorem callee_resolution:
  assumes "visit lim PNone tree [] = Inr calls"
    and "classify calls ({}, {}) = Inr (E, I)"
    and "consistent tree" and "x \<in> set (subnodes tree)"
    and "getattr x ''func'' = Inr func"
  shows "call_func_name x =
           (case dotted_name 2 func of
              Some r \<Rightarrow> r
            | None \<Rightarrow>
                if isinstance func ''Attribute'' then fmt_attr func ''attr''
                else Inr (type_name x))
         \<and> (dotted_name 2 func = None
              \<longrightarrow> ident x \<notin> E \<and> ident x \<notin> I
                  \<and> call_label E I x = bind_err (call_base x) (\<lambda>label. Inr (label, None)))"
proof -
  have "ident x \<notin> E \<and> ident x \<notin> I
        \<and> call_label E I x = bind_err (call_base x) (\<lambda>label. Inr (label, None))"
    if "dotted_name 2 func = None"
  proof -
    from yaml_load_dotted [OF assms(5) that]
    have "ident x \<notin> E" and "ident x \<notin> I"
      by (rule unmatched_not_classified [OF assms(1,2,3,4)])+
    then show ?thesis by (simp add: call_label_def)
  qed
  with call_func_name_dotted [OF assms(5)] show ?thesis by blast
qed

text \<open>Calls of \<^verbatim>\<open>a.b.c()\<close>, \<^verbatim>\<open>a.b.c.d()\<close> and \<^verbatim>\<open>f()()\<close>.\<close>

definition attr_chain :: "string list \<Rightarrow> pyobj" where
  "attr_chain names =
     foldl (\<lambda>v a. Node 0 ''Attribute'' [(''value'', v), (''attr'', PStr a), (''ctx'', shared_load)])
       (Node 0 ''Name'' [(''id'', PStr (hd names)), (''ctx'', shared_load)]) (tl names)"

definition call_of :: "pyobj \<Rightarrow> pyobj" where
  "call_of func = Node 0 ''Call'' [(''func'', func), (''args'', PList []), (''keywords'', PList [])]"

theorem callee_resolution_witness:
  "getattr join_call ''func'' = Inr join_func
   \<and> dotted_name 2 join_func = None
   \<and> call_func_name join_call = Inr ''join''
   \<and> ident join_call \<notin> {5} \<and> ident join_call \<notin> {15}
   \<and> call_label {5} {15} join_call = Inr (''Call: join (args=1)'', None)
   \<and> call_func_name call_a = Inr ''yaml.load''
   \<and> call_func_name (call_of (attr_chain [''a'', ''b'', ''c''])) = Inr ''a.b.c''
   \<and> call_func_name (call_of (attr_chain [''a'', ''b'', ''c'', ''d''])) = Inr ''d''
   \<and> call_func_name (call_of (call_of (attr_chain [''f'']))) = Inr ''Call''"
proof -
  have f: "getattr join_call ''func'' = Inr join_func" by code_simp
  have d: "dotted_name 2 join_func = None" by code_simp
  have b: "call_base join_call = Inr ''Call: join (args=1)''" by code_simp
  have a: "isinstance join_func ''Attribute''" by code_simp
  have j: "fmt_attr join_func ''attr'' = Inr ''join''" by code_simp
  from callee_resolution [OF server_module_calls server_module_sets consistent_server_module
      join_call_in_server_module f] d
  have "call_func_name join_call = Inr ''join''
        \<and> ident join_call \<notin> {5} \<and> ident join_call \<notin> {15}
        \<and> call_label {5} {15} join_call = Inr (''Call: join (args=1)'', None)"
    by (simp add: a j b bind_err_def)
  moreover have "call_func_name call_a = Inr ''yaml.load''" by code_simp
  moreover have "call_func_name (call_of (attr_chain [''a'', ''b'', ''c''])) = Inr ''a.b.c''"
    by code_simp
  moreover have "call_func_name (call_of (attr_chain [''a'', ''b'', ''c'', ''d''])) = Inr ''d''"
    by code_simp
  moreover have "call_func_name (call_of (call_of (attr_chain [''f'']))) = Inr ''Call''"
    by code_simp
  ultimately show ?thesis using f d by simp
qed

section \<open>Lemmas about nodes and their incoming edges\<close>

text \<open>
  \<open>drawn E I st V x\<close>: the identity of \<open>x\<close> has a graph name in the table of \<open>st\<close>, and
  the graph holds a node of that name with the label of an object of \<open>V\<close> that has this
  identity.
\<close>

definition drawn :: "nat set \<Rightarrow> nat set \<Rightarrow> walk_state \<Rightarrow> pyobj set \<Rightarrow> pyobj \<Rightarrow> bool" where
  "drawn E I st V x \<longleftrightarrow>
     (\<exists>y\<in>V. ident y = ident x
        \<and> (\<exists>nid l c. node_ids st (ident x) = Some nid \<and> node_label E I y = Inr (l, c)
              \<and> NodeStmt nid l c \<in> set (body st)))"

lemma drawn_mono:
  "drawn E I st V x \<Longrightarrow> grows st st' \<Longrightarrow> V \<subseteq> W \<Longrightarrow> drawn E I st' W x"
  unfolding drawn_def by (meson grows_lookup grows_body subsetD)

lemma drawn_ident: "drawn E I st V x \<Longrightarrow> ident x' = ident x \<Longrightarrow> drawn E I st V x'"
  by (simp add: drawn_def)

lemma set_subnodes_Node:
  "set (subnodes (Node i c fs))
   = insert (Node i c fs) (\<Union>r\<in>set (child_refs fs). set (subnodes (snd r)))"
  by (simp add: subnodes_Node case_prod_beta)

lemma fold_err_drawn:
  assumes "fold_err (\<lambda>(l, ch). add_node E I lim ch (Some nid) (Some l)) xs st = Inr st'"
    and "\<And>l ch s s1 x. (l, ch) \<in> set xs \<Longrightarrow> add_node E I lim ch (Some nid) (Some l) s = Inr s1
           \<Longrightarrow> x \<in> set (subnodes ch) \<Longrightarrow> node_ids s (ident x) = None
           \<Longrightarrow> drawn E I s1 (set (subnodes ch)) x"
    and "x \<in> (\<Union>r\<in>set xs. set (subnodes (snd r)))"
    and "node_ids st (ident x) = None"
  shows "drawn E I st' (\<Union>r\<in>set xs. set (subnodes (snd r))) x"
  using assms
proof (induction xs arbitrary: st)
  case Nil
  then show ?case by simp
next
  case (Cons r xs)
  obtain l ch where r: "r = (l, ch)" by (cases r)
  from Cons.prems(1) r obtain s1 where
    1: "add_node E I lim ch (Some nid) (Some l) st = Inr s1"
    and 2: "fold_err (\<lambda>(l, ch). add_node E I lim ch (Some nid) (Some l)) xs s1 = Inr st'"
    by (auto split: sum.splits)
  show ?case
  proof (cases "ident x \<in> idents ch")
    case True
    then obtain x1 where x1: "x1 \<in> set (subnodes ch)" "ident x1 = ident x"
      by (auto simp: idents_def)
    have "drawn E I s1 (set (subnodes ch)) x1"
      by (rule Cons.prems(2) [OF _ 1 x1(1)]) (simp_all add: r x1(2) Cons.prems(4))
    then have "drawn E I s1 (set (subnodes ch)) x"
      by (rule drawn_ident) (simp add: x1(2))
    then show ?thesis
      by (rule drawn_mono [OF _ fold_err_grows [OF 2]]) (auto simp: r)
  next
    case False
    then have "x \<notin> set (subnodes ch)" by (auto simp: idents_def)
    with Cons.prems(3) r have in_rest: "x \<in> (\<Union>r\<in>set xs. set (subnodes (snd r)))" by auto
    from Cons.prems(4) have "ident x \<notin> dom (node_ids st)" by (simp add: domIff)
    with add_node_dom [OF 1] False have "ident x \<notin> dom (node_ids s1)" by simp
    then have none: "node_ids s1 (ident x) = None" by (simp add: domIff)
    have "drawn E I st' (\<Union>r\<in>set xs. set (subnodes (snd r))) x"
      by (rule Cons.IH [OF 2 _ in_rest none]) (rule Cons.prems(2), simp_all)
    then show ?thesis
      by (rule drawn_mono [OF _ grows_refl]) auto
  qed
qed

lemma add_node_drawn:
  "add_node E I lim v p f st = Inr st' \<Longrightarrow> x \<in> set (subnodes v)
     \<Longrightarrow> node_ids st (ident x) = None \<Longrightarrow> drawn E I st' (set (subnodes v)) x"
proof (induction v arbitrary: lim p f st st' x rule: tree_induct)
  case (Obj i c fs)
  from Obj.prems(1) obtain lim' nid st1 where
    g: "get_nid E I (Node i c fs) st = Inr (nid, st1)"
    and a: "fold_err (\<lambda>(l, ch). add_node E I lim' ch (Some nid) (Some l)) (child_refs fs)
       (add_edge p nid f st1) = Inr st'"
    by (auto elim: add_node_InrE)
  let ?V = "set (subnodes (Node i c fs))"
  have sub: "(\<Union>r\<in>set (child_refs fs). set (subnodes (snd r))) \<subseteq> ?V"
    unfolding set_subnodes_Node by blast
  show ?case
  proof (cases "ident x = i")
    case True
    with Obj.prems(3) have "node_ids st (ident (Node i c fs)) = None" by simp
    with g obtain l c' where
      lab: "node_label E I (Node i c fs) = Inr (l, c')"
      and m1: "node_ids st1 i = Some nid"
      and b1: "NodeStmt nid l c' \<in> set (body st1)"
      by (auto elim!: get_nid_cases)
    have "drawn E I (add_edge p nid f st1) ?V (Node i c fs)"
      unfolding drawn_def set_subnodes_Node using lab m1 b1 by auto
    then have "drawn E I st' ?V (Node i c fs)"
      by (rule drawn_mono [OF _ fold_err_grows [OF a]]) simp
    then show ?thesis
      by (rule drawn_ident) (simp add: True)
  next
    case False
    with Obj.prems(2) have x: "x \<in> (\<Union>r\<in>set (child_refs fs). set (subnodes (snd r)))"
      unfolding set_subnodes_Node by auto
    from Obj.prems(3) have "ident x \<notin> dom (node_ids st)" by (simp add: domIff)
    with get_nid_result(4) [OF g] False have "ident x \<notin> dom (node_ids st1)" by simp
    then have none: "node_ids (add_edge p nid f st1) (ident x) = None"
      by (simp add: domIff)
    have "drawn E I st' (\<Union>r\<in>set (child_refs fs). set (subnodes (snd r))) x"
      using a
    proof (rule fold_err_drawn)
      fix l ch s s1 y
      assume "(l, ch) \<in> set (child_refs fs)"
        and "add_node E I lim' ch (Some nid) (Some l) s = Inr s1"
        and "y \<in> set (subnodes ch)" and "node_ids s (ident y) = None"
      then show "drawn E I s1 (set (subnodes ch)) y" by (rule Obj.IH)
    qed (rule x, rule none)
    then show ?thesis
      by (rule drawn_mono [OF _ grows_refl sub])
  qed
next
  case (Other v)
  then show ?case by (simp add: add_node_other)
qed

text \<open>\<^verbatim>\<open>len(node.args.args)\<close>\<close>

definition param_count :: "pyobj \<Rightarrow> py_error + nat" where
  "param_count node =
     bind_err (getattr node ''args'') (\<lambda>a. bind_err (getattr a ''args'') py_len)"

lemma node_label_FunctionDef:
  assumes "isinstance x ''FunctionDef''" and "getattr x ''name'' = Inr (PStr name)"
    and "param_count x = Inr n"
  shows "node_label E I x = Inr (''FunctionDef: name='' @ name @ '', args='' @ str_nat n, None)"
proof -
  from assms(1) have "\<not> isinstance x ''Call''"
    by (auto simp: isinstance_def split: pyobj.splits)
  with assms show ?thesis
    by (auto simp: node_label_def plain_label_def fmt_attr_def py_str_def param_count_def
        bind_err_def split: sum.splits)
qed

lemma followed_append: "followed a \<Longrightarrow> followed b \<Longrightarrow> followed (a @ b)"
  by (induction a rule: followed.induct) simp_all

lemma followed_edge_stmt: "followed (edge_stmt p nid f)"
  by (simp add: edge_stmt_def split: option.splits)

lemma fold_err_followed:
  assumes "fold_err (\<lambda>(l, ch). add_node E I lim ch (Some nid) (Some l)) xs st = Inr st'"
    and "names_ok st"
    and "\<And>l ch s s1. (l, ch) \<in> set xs \<Longrightarrow> names_ok s
           \<Longrightarrow> add_node E I lim ch (Some nid) (Some l) s = Inr s1
           \<Longrightarrow> \<exists>new. body s1 = body s @ new \<and> followed new"
  shows "\<exists>new. body st' = body st @ new \<and> followed new"
  using assms
proof (induction xs arbitrary: st)
  case Nil
  then show ?case by simp
next
  case (Cons r xs)
  obtain l ch where r: "r = (l, ch)" by (cases r)
  from Cons.prems(1) r obtain s1 where
    1: "add_node E I lim ch (Some nid) (Some l) st = Inr s1"
    and 2: "fold_err (\<lambda>(l, ch). add_node E I lim ch (Some nid) (Some l)) xs s1 = Inr st'"
    by (auto split: sum.splits)
  have "\<exists>new. body s1 = body st @ new \<and> followed new"
    by (rule Cons.prems(3) [OF _ Cons.prems(2) 1]) (simp add: r)
  then obtain n1 where n1: "body s1 = body st @ n1" "followed n1" by blast
  have ok1: "names_ok s1" by (rule add_node_names_ok [OF 1 Cons.prems(2)])
  have "\<exists>new. body st' = body s1 @ new \<and> followed new"
    by (rule Cons.IH [OF 2 ok1]) (rule Cons.prems(3), simp_all)
  then obtain n2 where n2: "body st' = body s1 @ n2" "followed n2" by blast
  from n1 n2 have "body st' = body st @ (n1 @ n2)" "followed (n1 @ n2)"
    by (simp_all add: followed_append)
  then show ?case by blast
qed

lemma add_node_followed:
  "add_node E I lim v (Some pid) f st = Inr st' \<Longrightarrow> names_ok st \<Longrightarrow> pid \<noteq> []
     \<Longrightarrow> \<exists>new. body st' = body st @ new \<and> followed new"
proof (induction v arbitrary: lim pid f st st' rule: tree_induct)
  case (Obj i c fs)
  from Obj.prems(1) obtain lim' nid st1 where
    g: "get_nid E I (Node i c fs) st = Inr (nid, st1)"
    and a: "fold_err (\<lambda>(l, ch). add_node E I lim' ch (Some nid) (Some l)) (child_refs fs)
       (add_edge (Some pid) nid f st1) = Inr st'"
    by (auto elim: add_node_InrE)
  have ok1: "names_ok st1" by (rule names_ok_get_nid [OF g Obj.prems(2)])
  then have ok2: "names_ok (add_edge (Some pid) nid f st1)" by (rule names_ok_add_edge)
  from get_nid_result(1) [OF g] have "node_ids st1 i = Some nid" by simp
  with ok1 have nid: "nid \<noteq> []" by (rule names_ok_nonempty)
  have "\<exists>new. body st' = body (add_edge (Some pid) nid f st1) @ new \<and> followed new"
    using a ok2
  proof (rule fold_err_followed)
    fix l ch s s1
    assume "(l, ch) \<in> set (child_refs fs)" and "names_ok s"
      and "add_node E I lim' ch (Some nid) (Some l) s = Inr s1"
    then show "\<exists>new. body s1 = body s @ new \<and> followed new"
      using Obj.IH nid by blast
  qed
  then obtain n2 where n2: "body st' = body (add_edge (Some pid) nid f st1) @ n2" "followed n2"
    by blast
  have "\<exists>n1. body (add_edge (Some pid) nid f st1) = body st @ n1 \<and> followed n1"
    using g Obj.prems(3) by (auto elim!: get_nid_cases simp: edge_stmt_def)
  then obtain n1 where n1: "body (add_edge (Some pid) nid f st1) = body st @ n1" "followed n1"
    by blast
  from n1 n2 have "body st' = body st @ (n1 @ n2)" "followed (n1 @ n2)"
    by (simp_all add: followed_append)
  then show ?case by blast
next
  case (Other v)
  then show ?case by (simp add: add_node_other)
qed

lemma add_node_root_followed:
  assumes "add_node E I lim v None f st = Inr st'" and "names_ok st"
    and "node_ids st (ident v) = None"
  shows "\<exists>l c rest. body st' = body st @ NodeStmt (nid_name (node_counter st)) l c # rest
           \<and> followed rest"
proof -
  from assms(1) obtain lim' i c fs nid st1 where
    v: "v = Node i c fs"
    and g: "get_nid E I v st = Inr (nid, st1)"
    and a: "fold_err (\<lambda>(l, ch). add_node E I lim' ch (Some nid) (Some l)) (child_refs fs)
       (add_edge None nid f st1) = Inr st'"
    by (rule add_node_InrE)
  have ok1: "names_ok st1" by (rule names_ok_get_nid [OF g assms(2)])
  then have ok2: "names_ok (add_edge None nid f st1)" by (rule names_ok_add_edge)
  from get_nid_result(1) [OF g] ok1 have nid: "nid \<noteq> []" by (auto dest: names_ok_nonempty)
  have "\<exists>new. body st' = body (add_edge None nid f st1) @ new \<and> followed new"
    using a ok2
  proof (rule fold_err_followed)
    fix l ch s s1
    assume "(l, ch) \<in> set (child_refs fs)" and "names_ok s"
      and "add_node E I lim' ch (Some nid) (Some l) s = Inr s1"
    then show "\<exists>new. body s1 = body s @ new \<and> followed new"
      using add_node_followed nid by blast
  qed
  then obtain rest where rest: "body st' = body (add_edge None nid f st1) @ rest" "followed rest"
    by blast
  from g assms(3) obtain l c' where
    "body st1 = body st @ [NodeStmt (nid_name (node_counter st)) l c']"
    by (auto elim!: get_nid_cases)
  with rest show ?thesis by (auto simp: edge_stmt_def)
qed

lemma nid_name_0: "nid_name 0 = ''node0''"
  by code_simp

lemma length_filter_concat:
  "length (filter P (concat (map g xs))) = (\<Sum>x\<leftarrow>xs. length (filter P (g x)))"
  by (induction xs) simp_all

lemma points_to_walk_edges:
  assumes nonempty: "\<And>i s. m i = Some s \<Longrightarrow> s \<noteq> []"
  shows "idents v \<subseteq> dom m \<Longrightarrow> pid \<noteq> [] \<Longrightarrow>
     length (filter (points_to t) (walk_edges m (Some pid) f v))
     = length (filter (\<lambda>y. m (ident y) = Some t) (subnodes v))"
proof (induction v arbitrary: pid f rule: tree_induct)
  case (Obj i c fs)
  from Obj.prems(1) obtain nid where i: "m i = Some nid" by (auto simp: idents_Node)
  then have nid: "nid \<noteq> []" by (rule nonempty)
  have "(\<Sum>x\<leftarrow>child_refs fs.
           length (filter (points_to t) (case x of (l, ch) \<Rightarrow> walk_edges m (Some nid) (Some l) ch)))
        = (\<Sum>x\<leftarrow>child_refs fs.
           length (filter (\<lambda>y. m (ident y) = Some t) (case x of (l, ch) \<Rightarrow> subnodes ch)))"
  proof (rule arg_cong [where f = sum_list], rule map_cong [OF refl])
    fix x assume x: "x \<in> set (child_refs fs)"
    obtain l ch where lc: "x = (l, ch)" by (cases x)
    from x lc have "(l, ch) \<in> set (child_refs fs)" by simp
    from idents_child [OF this, of i c] Obj.prems(1) have "idents ch \<subseteq> dom m"
      by (rule subset_trans)
    with Obj.IH [of l ch nid "Some l"] x lc nid
    show "length (filter (points_to t) (case x of (l, ch) \<Rightarrow> walk_edges m (Some nid) (Some l) ch))
          = length (filter (\<lambda>y. m (ident y) = Some t) (case x of (l, ch) \<Rightarrow> subnodes ch))"
      by simp
  qed
  with i Obj.prems(2) show ?case
    by (cases "nid = t")
      (simp_all add: walk_edges_Node subnodes_Node length_filter_concat edge_stmt_def)
next
  case (Other v)
  then show ?case by (simp add: walk_edges_other subnodes_other)
qed

lemma points_to_walk_edges_root:
  assumes nonempty: "\<And>i s. m i = Some s \<Longrightarrow> s \<noteq> []"
    and "idents v \<subseteq> dom m"
  shows "length (filter (points_to t) (walk_edges m None None v))
         = length (filter (\<lambda>y. m (ident y) = Some t) (tl (subnodes v)))"
proof (cases "is_ast v")
  case True
  then obtain i c fs where v: "v = Node i c fs" by (auto simp: is_ast_iff)
  from assms(2) v obtain nid where i: "m i = Some nid" by (auto simp: idents_Node)
  then have nid: "nid \<noteq> []" by (rule nonempty)
  have "(\<Sum>x\<leftarrow>child_refs fs.
           length (filter (points_to t) (case x of (l, ch) \<Rightarrow> walk_edges m (Some nid) (Some l) ch)))
        = (\<Sum>x\<leftarrow>child_refs fs.
           length (filter (\<lambda>y. m (ident y) = Some t) (case x of (l, ch) \<Rightarrow> subnodes ch)))"
  proof (rule arg_cong [where f = sum_list], rule map_cong [OF refl])
    fix x assume x: "x \<in> set (child_refs fs)"
    obtain l ch where lc: "x = (l, ch)" by (cases x)
    from x lc have "(l, ch) \<in> set (child_refs fs)" by simp
    from idents_child [OF this, of i c] assms(2) have "idents ch \<subseteq> dom m"
      unfolding v by (rule subset_trans)
    from points_to_walk_edges [OF nonempty this nid, of _ t "Some l"] lc
    show "length (filter (points_to t) (case x of (l, ch) \<Rightarrow> walk_edges m (Some nid) (Some l) ch))
          = length (filter (\<lambda>y. m (ident y) = Some t) (case x of (l, ch) \<Rightarrow> subnodes ch))"
      by simp
  qed
  with i show ?thesis
    by (cases "nid = t")
      (simp_all add: v walk_edges_Node subnodes_Node length_filter_concat edge_stmt_def)
next
  case False
  then show ?thesis by (simp add: walk_edges_other subnodes_other)
qed

lemma points_to_is_edge: "filter (points_to t) (filter is_edge b) = filter (points_to t) b"
proof -
  have "points_to t s \<Longrightarrow> is_edge s" for s by (cases s) simp_all
  then show ?thesis by (auto intro: filter_cong)
qed

lemma count_list_map_ident:
  "count_list (map g ys) j = length (filter (\<lambda>y. g y = j) ys)"
  by (induction ys) simp_all

lemma result_body_InrE:
  assumes "result_body r = Inr b"
  obtains st where "r = Inr st" "body st = b"
  using assms by (cases r) (simp_all add: result_body_def)

section \<open>Incoming edges\<close>

text \<open>
  The module \<^verbatim>\<open>a\<close>, newline, \<^verbatim>\<open>b\<close> as \<^verbatim>\<open>ast.parse\<close> returns it: both names hold the
  parser's one \<^verbatim>\<open>Load\<close> object.
\<close>

definition expr_name :: "nat \<Rightarrow> nat \<Rightarrow> string \<Rightarrow> pyobj" where
  "expr_name i j x =
     Node i ''Expr'' [(''value'', Node j ''Name'' [(''id'', PStr x), (''ctx'', shared_load)])]"

definition two_loads :: pyobj where
  "two_loads =
     Node 0 ''Module''
       [(''body'', PList [expr_name 1 2 ''a'', expr_name 3 4 ''b'']), (''type_ignores'', PList [])]"

definition edges_into :: "string \<Rightarrow> py_error + stmt list \<Rightarrow> py_error + stmt list" where
  "edges_into nid r = (case r of Inl e \<Rightarrow> Inl e | Inr b \<Rightarrow> Inr (filter (points_to nid) b))"

lemma two_loads_body:
  "result_body (add_node {} {} 10 two_loads None None initial) =
     Inr [NodeStmt ''node0'' ''Module'' None,
          NodeStmt ''node1'' ''Expr'' None,
          EdgeStmt ''node0'' ''node1'' ''body[0]'',
          NodeStmt ''node2'' ''Name: a (Load)'' None,
          EdgeStmt ''node1'' ''node2'' ''value'',
          NodeStmt ''node3'' ''Load'' None,
          EdgeStmt ''node2'' ''node3'' ''ctx'',
          NodeStmt ''node4'' ''Expr'' None,
          EdgeStmt ''node0'' ''node4'' ''body[1]'',
          NodeStmt ''node5'' ''Name: b (Load)'' None,
          EdgeStmt ''node4'' ''node5'' ''value'',
          EdgeStmt ''node5'' ''node3'' ''ctx'']"
  by code_simp

text \<open>
  C5, as stated, fails: the graph node of the shared \<^verbatim>\<open>Load\<close> object, \<^verbatim>\<open>node3\<close>, is the
  target of two edges, one from each name that holds it.
\<close>

theorem shared_load_has_two_incoming_edges:
  "result_body (add_node {} {} 10 two_loads None None initial) =
     Inr [NodeStmt ''node0'' ''Module'' None,
          NodeStmt ''node1'' ''Expr'' None,
          EdgeStmt ''node0'' ''node1'' ''body[0]'',
          NodeStmt ''node2'' ''Name: a (Load)'' None,
          EdgeStmt ''node1'' ''node2'' ''value'',
          NodeStmt ''node3'' ''Load'' None,
          EdgeStmt ''node2'' ''node3'' ''ctx'',
          NodeStmt ''node4'' ''Expr'' None,
          EdgeStmt ''node0'' ''node4'' ''body[1]'',
          NodeStmt ''node5'' ''Name: b (Load)'' None,
          EdgeStmt ''node4'' ''node5'' ''value'',
          EdgeStmt ''node5'' ''node3'' ''ctx'']
   \<and> edges_into ''node3'' (result_body (add_node {} {} 10 two_loads None None initial)) =
       Inr [EdgeStmt ''node2'' ''node3'' ''ctx'', EdgeStmt ''node5'' ''node3'' ''ctx'']"
  by code_simp

text \<open>
  C5, amended. In the graph of a walk from the root, the node statement of the root
  comes first, and every other node statement has, right after it, the edge that the
  same call of \<^verbatim>\<open>add_node\<close> adds, which points to the node. The number of edges that
  point to the graph node of an object below the root is the number of references to
  the object that the walk follows: at least one, and exactly one for an object that is
  referenced once. Every node statement carries the graph name of an object of the tree.
\<close>

theorem incoming_edges:
  assumes "add_node E I lim tree None None initial = Inr st'"
  shows "(\<exists>label fill rest. body st' = NodeStmt ''node0'' label fill # rest \<and> followed rest)
       \<and> (\<forall>x\<in>set (tl (subnodes tree)). \<exists>nid. node_ids st' (ident x) = Some nid
             \<and> length (filter (points_to nid) (body st'))
                 = count_list (map ident (tl (subnodes tree))) (ident x))
       \<and> (\<forall>nid label fill. NodeStmt nid label fill \<in> set (body st')
             \<longrightarrow> (\<exists>x\<in>set (subnodes tree). node_ids st' (ident x) = Some nid))"
proof -
  have ok: "names_ok st'"
    by (rule add_node_names_ok [OF assms names_ok_initial])
  have dom: "dom (node_ids st') = idents tree"
    using add_node_dom [OF assms] by (simp add: initial_def)
  have edges: "filter is_edge (body st') = walk_edges (node_ids st') None None tree"
    using add_node_edges [OF assms] by (simp add: initial_def)
  have nonempty: "\<And>i s. node_ids st' i = Some s \<Longrightarrow> s \<noteq> []"
    using ok by (rule names_ok_nonempty)
  have a: "\<exists>label fill rest. body st' = NodeStmt ''node0'' label fill # rest \<and> followed rest"
    using add_node_root_followed [OF assms names_ok_initial]
    by (simp add: initial_def nid_name_0)
  have b: "\<exists>nid. node_ids st' (ident x) = Some nid
             \<and> length (filter (points_to nid) (body st'))
                 = count_list (map ident (tl (subnodes tree))) (ident x)"
    if x: "x \<in> set (tl (subnodes tree))" for x
  proof -
    from x have "x \<in> set (subnodes tree)"
      by (cases "subnodes tree") simp_all
    then have "ident x \<in> dom (node_ids st')" by (simp add: dom idents_def)
    then obtain nid where nid: "node_ids st' (ident x) = Some nid" by auto
    have same: "(node_ids st' (ident y) = Some nid) = (ident y = ident x)" for y
    proof
      assume "node_ids st' (ident y) = Some nid"
      then show "ident y = ident x" by (rule names_ok_inj [OF ok _ nid])
    next
      assume "ident y = ident x"
      with nid show "node_ids st' (ident y) = Some nid" by simp
    qed
    have "length (filter (points_to nid) (body st'))
          = length (filter (points_to nid) (walk_edges (node_ids st') None None tree))"
      by (simp only: edges [symmetric] points_to_is_edge)
    also have "\<dots> = length (filter (\<lambda>y. node_ids st' (ident y) = Some nid) (tl (subnodes tree)))"
      by (rule points_to_walk_edges_root [OF nonempty]) (simp_all add: dom)
    also have "\<dots> = count_list (map ident (tl (subnodes tree))) (ident x)"
      by (simp only: same count_list_map_ident)
    finally show ?thesis using nid by blast
  qed
  have c: "\<exists>x\<in>set (subnodes tree). node_ids st' (ident x) = Some nid"
    if n: "NodeStmt nid label fill \<in> set (body st')" for nid label fill
  proof -
    from ok n obtain i where i: "node_ids st' i = Some nid"
      unfolding names_ok_def by blast
    then have "i \<in> idents tree" using dom by auto
    with i show ?thesis by (auto simp: idents_def)
  qed
  from a b c show ?thesis by blast
qed

theorem incoming_edges_witness:
  "\<exists>st' nid nid'. add_node {} {} 10 two_loads None None initial = Inr st'
     \<and> node_ids st' (ident shared_load) = Some nid
     \<and> length (filter (points_to nid) (body st')) = 2
     \<and> node_ids st' (ident (expr_name 3 4 ''b'')) = Some nid'
     \<and> length (filter (points_to nid') (body st')) = 1
     \<and> followed (tl (body st'))"
proof -
  from two_loads_body obtain st' where
    ok: "add_node {} {} 10 two_loads None None initial = Inr st'"
    and b: "body st' =
     [NodeStmt ''node0'' ''Module'' None,
          NodeStmt ''node1'' ''Expr'' None,
          EdgeStmt ''node0'' ''node1'' ''body[0]'',
          NodeStmt ''node2'' ''Name: a (Load)'' None,
          EdgeStmt ''node1'' ''node2'' ''value'',
          NodeStmt ''node3'' ''Load'' None,
          EdgeStmt ''node2'' ''node3'' ''ctx'',
          NodeStmt ''node4'' ''Expr'' None,
          EdgeStmt ''node0'' ''node4'' ''body[1]'',
          NodeStmt ''node5'' ''Name: b (Load)'' None,
          EdgeStmt ''node4'' ''node5'' ''value'',
          EdgeStmt ''node5'' ''node3'' ''ctx'']"
    by (rule result_body_InrE)
  have s: "subnodes two_loads =
     [two_loads, expr_name 1 2 ''a'', Node 2 ''Name'' [(''id'', PStr ''a''), (''ctx'', shared_load)],
      shared_load, expr_name 3 4 ''b'',
      Node 4 ''Name'' [(''id'', PStr ''b''), (''ctx'', shared_load)], shared_load]"
    by code_simp
  have c1: "count_list (map ident (tl (subnodes two_loads))) (ident shared_load) = 2"
    by code_simp
  have c2: "count_list (map ident (tl (subnodes two_loads))) (ident (expr_name 3 4 ''b'')) = 1"
    by code_simp
  from incoming_edges [OF ok] have
    f: "\<exists>label fill rest. body st' = NodeStmt ''node0'' label fill # rest \<and> followed rest"
    and e: "\<forall>x\<in>set (tl (subnodes two_loads)). \<exists>nid. node_ids st' (ident x) = Some nid
             \<and> length (filter (points_to nid) (body st'))
                 = count_list (map ident (tl (subnodes two_loads))) (ident x)"
    by blast+
  from e s c1 obtain nid where
    "node_ids st' (ident shared_load) = Some nid"
    "length (filter (points_to nid) (body st')) = 2"
    by auto
  moreover from e s c2 obtain nid' where
    "node_ids st' (ident (expr_name 3 4 ''b'')) = Some nid'"
    "length (filter (points_to nid') (body st')) = 1"
    by auto
  moreover from f have "followed (tl (body st'))" by auto
  ultimately show ?thesis using ok by blast
qed

section \<open>Identity, not structure, decides the graph node\<close>





lemma isinstance_cls: "isinstance x k \<Longrightarrow> \<exists>i fs. x = Node i k fs"
  by (cases x) (simp_all add: isinstance_def)

lemma node_label_ClassDef:
  assumes "isinstance x ''ClassDef''" and "getattr x ''name'' = Inr (PStr name)"
  shows "node_label E I x = Inr (''ClassDef: name='' @ name, None)"
proof -
  from assms(1) obtain i fs where x: "x = Node i ''ClassDef'' fs"
    by (auto dest: isinstance_cls)
  have p: "plain_label x = bind_err (fmt_attr x ''name'') (\<lambda>name. Inr (''ClassDef: name='' @ name))"
    unfolding x plain_label_def isinstance_def by simp
  from assms(2) show ?thesis
    by (simp add: node_label_def p fmt_attr_def py_str_def bind_err_def)
      (simp add: x isinstance_def)
qed

lemma node_label_AsyncFunctionDef:
  assumes "isinstance x ''AsyncFunctionDef''"
  shows "node_label E I x = Inr (''AsyncFunctionDef'', None)"
proof -
  from assms(1) obtain i fs where x: "x = Node i ''AsyncFunctionDef'' fs"
    by (auto dest: isinstance_cls)
  have p: "plain_label x = Inr ''AsyncFunctionDef''"
    unfolding x plain_label_def isinstance_def type_name_def by simp
  show ?thesis
    by (simp add: node_label_def p bind_err_def) (simp add: x isinstance_def)
qed


text \<open>Whether the text \<open>s\<close> occurs in the text \<open>l\<close>.\<close>

fun starts_with :: "string \<Rightarrow> string \<Rightarrow> bool" where
  "starts_with [] l = True"
| "starts_with (a # s) [] = False"
| "starts_with (a # s) (b # l) = (a = b \<and> starts_with s l)"

fun occurs_in :: "string \<Rightarrow> string \<Rightarrow> bool" where
  "occurs_in s [] = (s = [])"
| "occurs_in s (b # l) = (starts_with s (b # l) \<or> occurs_in s l)"

text \<open>Two functions \<^verbatim>\<open>async def handler(): pass\<close> in one module.\<close>

definition async_function_def :: "nat \<Rightarrow> string \<Rightarrow> pyobj \<Rightarrow> pyobj list \<Rightarrow> pyobj" where
  "async_function_def i name args stmts =
     Node i ''AsyncFunctionDef''
       [(''name'', PStr name), (''args'', args), (''body'', PList stmts),
        (''decorator_list'', PList []), (''returns'', PNone), (''type_comment'', PNone)]"

definition async_twin_module :: pyobj where
  "async_twin_module =
     Node 0 ''Module''
       [(''body'', PList
          [async_function_def 1 ''handler'' (arguments 2 []) [Node 3 ''Pass'' []],
           async_function_def 4 ''handler'' (arguments 5 []) [Node 6 ''Pass'' []]]),
        (''type_ignores'', PList [])]"

text \<open>
  C9, as stated, fails for definitions that are not \<^verbatim>\<open>FunctionDef\<close> or \<^verbatim>\<open>ClassDef\<close>
  objects: the two functions \<^verbatim>\<open>async def handler(): pass\<close> get two graph names, but the
  chain of lines 66 to 160 has no branch for \<^verbatim>\<open>AsyncFunctionDef\<close>, so each label is the
  bare class name, in which the name \<^verbatim>\<open>handler\<close> does not occur.
\<close>

theorem async_definition_label_has_no_name:
  "consistent async_twin_module
   \<and> getattr (async_function_def 1 ''handler'' (arguments 2 []) [Node 3 ''Pass'' []]) ''name''
       = Inr (PStr ''handler'')
   \<and> getattr (async_function_def 4 ''handler'' (arguments 5 []) [Node 6 ''Pass'' []]) ''name''
       = Inr (PStr ''handler'')
   \<and> result_body (add_node {} {} 10 async_twin_module None None initial) =
     Inr [NodeStmt ''node0'' ''Module'' None,
          NodeStmt ''node1'' ''AsyncFunctionDef'' None,
          EdgeStmt ''node0'' ''node1'' ''body[0]'',
          NodeStmt ''node2'' ''arguments'' None,
          EdgeStmt ''node1'' ''node2'' ''args'',
          NodeStmt ''node3'' ''Pass'' None,
          EdgeStmt ''node1'' ''node3'' ''body[0]'',
          NodeStmt ''node4'' ''AsyncFunctionDef'' None,
          EdgeStmt ''node0'' ''node4'' ''body[1]'',
          NodeStmt ''node5'' ''arguments'' None,
          EdgeStmt ''node4'' ''node5'' ''args'',
          NodeStmt ''node6'' ''Pass'' None,
          EdgeStmt ''node4'' ''node6'' ''body[0]'']
   \<and> \<not> occurs_in ''handler'' ''AsyncFunctionDef''"
  by code_simp

lemma definition_labels:
  assumes "node_label E I z = Inr (l, c)"
  shows "(isinstance z ''FunctionDef'' \<and> getattr z ''name'' = Inr (PStr name)
            \<and> param_count z = Inr n
          \<longrightarrow> l = ''FunctionDef: name='' @ name @ '', args='' @ str_nat n \<and> c = None)
       \<and> (isinstance z ''ClassDef'' \<and> getattr z ''name'' = Inr (PStr name)
          \<longrightarrow> l = ''ClassDef: name='' @ name \<and> c = None)
       \<and> (isinstance z ''AsyncFunctionDef'' \<longrightarrow> l = ''AsyncFunctionDef'' \<and> c = None)"
proof (intro conjI impI)
  assume "isinstance z ''FunctionDef'' \<and> getattr z ''name'' = Inr (PStr name)
            \<and> param_count z = Inr n"
  then have "node_label E I z = Inr (''FunctionDef: name='' @ name @ '', args='' @ str_nat n, None)"
    by (simp add: node_label_FunctionDef)
  with assms show "l = ''FunctionDef: name='' @ name @ '', args='' @ str_nat n" and "c = None"
    by simp_all
next
  assume "isinstance z ''ClassDef'' \<and> getattr z ''name'' = Inr (PStr name)"
  then have "node_label E I z = Inr (''ClassDef: name='' @ name, None)"
    by (simp add: node_label_ClassDef)
  with assms show "l = ''ClassDef: name='' @ name" and "c = None"
    by simp_all
next
  assume "isinstance z ''AsyncFunctionDef''"
  then have "node_label E I z = Inr (''AsyncFunctionDef'', None)"
    by (rule node_label_AsyncFunctionDef)
  with assms show "l = ''AsyncFunctionDef''" and "c = None"
    by simp_all
qed

text \<open>
  C9, amended. Two different objects of a consistent tree, alike or not, get two
  different graph names, and the graph holds a node of each name with the label of that
  object: \<^verbatim>\<open>node_ids\<close> is keyed by identity. The label holds the name for a \<^verbatim>\<open>FunctionDef\<close>
  (\<^verbatim>\<open>FunctionDef: name=..., args=...\<close> with the number of parameters) and for a
  \<^verbatim>\<open>ClassDef\<close> (\<^verbatim>\<open>ClassDef: name=...\<close>); for an \<^verbatim>\<open>AsyncFunctionDef\<close> it is the class name
  alone.
\<close>

theorem distinct_objects_distinct_nodes:
  assumes "add_node E I lim tree None None initial = Inr st'"
    and "consistent tree"
    and "x \<in> set (subnodes tree)" and "y \<in> set (subnodes tree)" and "ident x \<noteq> ident y"
  shows "\<exists>nx ny lx ly cx cy.
           node_ids st' (ident x) = Some nx \<and> node_ids st' (ident y) = Some ny \<and> nx \<noteq> ny
           \<and> node_label E I x = Inr (lx, cx) \<and> NodeStmt nx lx cx \<in> set (body st')
           \<and> node_label E I y = Inr (ly, cy) \<and> NodeStmt ny ly cy \<in> set (body st')
           \<and> ((isinstance x ''FunctionDef'' \<and> getattr x ''name'' = Inr (PStr name)
                  \<and> param_count x = Inr n
                \<longrightarrow> lx = ''FunctionDef: name='' @ name @ '', args='' @ str_nat n \<and> cx = None)
              \<and> (isinstance x ''ClassDef'' \<and> getattr x ''name'' = Inr (PStr name)
                \<longrightarrow> lx = ''ClassDef: name='' @ name \<and> cx = None)
              \<and> (isinstance x ''AsyncFunctionDef'' \<longrightarrow> lx = ''AsyncFunctionDef'' \<and> cx = None))
           \<and> ((isinstance y ''FunctionDef'' \<and> getattr y ''name'' = Inr (PStr name)
                  \<and> param_count y = Inr n
                \<longrightarrow> ly = ''FunctionDef: name='' @ name @ '', args='' @ str_nat n \<and> cy = None)
              \<and> (isinstance y ''ClassDef'' \<and> getattr y ''name'' = Inr (PStr name)
                \<longrightarrow> ly = ''ClassDef: name='' @ name \<and> cy = None)
              \<and> (isinstance y ''AsyncFunctionDef'' \<longrightarrow> ly = ''AsyncFunctionDef'' \<and> cy = None))"
proof -
  have one: "\<exists>nz l c. node_ids st' (ident z) = Some nz \<and> node_label E I z = Inr (l, c)
               \<and> NodeStmt nz l c \<in> set (body st')"
    if z: "z \<in> set (subnodes tree)" for z
  proof -
    have "drawn E I st' (set (subnodes tree)) z"
      by (rule add_node_drawn [OF assms(1) z]) (simp add: initial_def)
    then obtain z' nz l c where z': "z' \<in> set (subnodes tree)" "ident z' = ident z"
      and d: "node_ids st' (ident z) = Some nz" "node_label E I z' = Inr (l, c)"
        "NodeStmt nz l c \<in> set (body st')"
      by (auto simp: drawn_def)
    from consistent_same [OF assms(2) z'(1) z z'(2)] have "z' = z" .
    with d show ?thesis by auto
  qed
  from one [OF assms(3)] obtain nx lx cx where
    nx: "node_ids st' (ident x) = Some nx" "node_label E I x = Inr (lx, cx)"
      "NodeStmt nx lx cx \<in> set (body st')" by blast
  from one [OF assms(4)] obtain ny ly cy where
    ny: "node_ids st' (ident y) = Some ny" "node_label E I y = Inr (ly, cy)"
      "NodeStmt ny ly cy \<in> set (body st')" by blast
  have "names_ok st'"
    by (rule add_node_names_ok [OF assms(1) names_ok_initial])
  from names_ok_inj [OF this nx(1)] ny(1) assms(5) have ne: "nx \<noteq> ny" by auto
  note lx = definition_labels [OF nx(2), of name n]
  note ly = definition_labels [OF ny(2), of name n]
  show ?thesis
    apply (rule exI [of _ nx], rule exI [of _ ny], rule exI [of _ lx], rule exI [of _ ly],
        rule exI [of _ cx], rule exI [of _ cy])
    apply (intro conjI)
    apply (rule nx ny ne lx [THEN conjunct1] lx [THEN conjunct2, THEN conjunct1]
        lx [THEN conjunct2, THEN conjunct2] ly [THEN conjunct1]
        ly [THEN conjunct2, THEN conjunct1] ly [THEN conjunct2, THEN conjunct2])+
    done
qed

text \<open>Two functions \<^verbatim>\<open>def f(): pass\<close> in one module.\<close>

definition twin_module :: pyobj where
  "twin_module =
     Node 0 ''Module''
       [(''body'', PList
          [function_def 1 ''f'' (arguments 2 []) [Node 3 ''Pass'' []],
           function_def 4 ''f'' (arguments 5 []) [Node 6 ''Pass'' []]]),
        (''type_ignores'', PList [])]"

lemma twin_module_body:
  "result_body (add_node {} {} 10 twin_module None None initial) =
     Inr [NodeStmt ''node0'' ''Module'' None,
          NodeStmt ''node1'' ''FunctionDef: name=f, args=0'' None,
          EdgeStmt ''node0'' ''node1'' ''body[0]'',
          NodeStmt ''node2'' ''arguments'' None,
          EdgeStmt ''node1'' ''node2'' ''args'',
          NodeStmt ''node3'' ''Pass'' None,
          EdgeStmt ''node1'' ''node3'' ''body[0]'',
          NodeStmt ''node4'' ''FunctionDef: name=f, args=0'' None,
          EdgeStmt ''node0'' ''node4'' ''body[1]'',
          NodeStmt ''node5'' ''arguments'' None,
          EdgeStmt ''node4'' ''node5'' ''args'',
          NodeStmt ''node6'' ''Pass'' None,
          EdgeStmt ''node4'' ''node6'' ''body[0]'']"
  by code_simp

theorem distinct_objects_distinct_nodes_witness:
  "consistent twin_module
   \<and> result_body (add_node {} {} 10 twin_module None None initial) =
     Inr [NodeStmt ''node0'' ''Module'' None,
          NodeStmt ''node1'' ''FunctionDef: name=f, args=0'' None,
          EdgeStmt ''node0'' ''node1'' ''body[0]'',
          NodeStmt ''node2'' ''arguments'' None,
          EdgeStmt ''node1'' ''node2'' ''args'',
          NodeStmt ''node3'' ''Pass'' None,
          EdgeStmt ''node1'' ''node3'' ''body[0]'',
          NodeStmt ''node4'' ''FunctionDef: name=f, args=0'' None,
          EdgeStmt ''node0'' ''node4'' ''body[1]'',
          NodeStmt ''node5'' ''arguments'' None,
          EdgeStmt ''node4'' ''node5'' ''args'',
          NodeStmt ''node6'' ''Pass'' None,
          EdgeStmt ''node4'' ''node6'' ''body[0]'']
   \<and> (\<exists>st' nx ny. add_node {} {} 10 twin_module None None initial = Inr st'
          \<and> node_ids st' 1 = Some nx \<and> node_ids st' 4 = Some ny \<and> nx \<noteq> ny
          \<and> NodeStmt nx ''FunctionDef: name=f, args=0'' None \<in> set (body st')
          \<and> NodeStmt ny ''FunctionDef: name=f, args=0'' None \<in> set (body st'))"
proof -
  let ?x = "function_def 1 ''f'' (arguments 2 []) [Node 3 ''Pass'' []]"
  let ?y = "function_def 4 ''f'' (arguments 5 []) [Node 6 ''Pass'' []]"
  from twin_module_body obtain st' where
    ok: "add_node {} {} 10 twin_module None None initial = Inr st'"
    by (rule result_body_InrE)
  have con: "consistent twin_module" by code_simp
  have x: "?x \<in> set (subnodes twin_module)" by code_simp
  have y: "?y \<in> set (subnodes twin_module)" by code_simp
  have d: "ident ?x \<noteq> ident ?y" by code_simp
  have fx: "isinstance ?x ''FunctionDef''" by code_simp
  have fy: "isinstance ?y ''FunctionDef''" by code_simp
  have nx: "getattr ?x ''name'' = Inr (PStr ''f'')" by code_simp
  have ny: "getattr ?y ''name'' = Inr (PStr ''f'')" by code_simp
  have px: "param_count ?x = Inr 0" by code_simp
  have py: "param_count ?y = Inr 0" by code_simp
  have i: "ident ?x = 1" "ident ?y = 4" by code_simp+
  have l: "''FunctionDef: name='' @ ''f'' @ '', args='' @ str_nat 0 = ''FunctionDef: name=f, args=0''"
    by code_simp
  from distinct_objects_distinct_nodes [OF ok con x y d, of "''f''" 0]
  obtain nx' ny' lx ly cx cy where
    r: "node_ids st' (ident ?x) = Some nx'" "node_ids st' (ident ?y) = Some ny'" "nx' \<noteq> ny'"
      "NodeStmt nx' lx cx \<in> set (body st')" "NodeStmt ny' ly cy \<in> set (body st')"
    and lx: "isinstance ?x ''FunctionDef'' \<and> getattr ?x ''name'' = Inr (PStr ''f'')
               \<and> param_count ?x = Inr 0
             \<longrightarrow> lx = ''FunctionDef: name='' @ ''f'' @ '', args='' @ str_nat 0 \<and> cx = None"
    and ly: "isinstance ?y ''FunctionDef'' \<and> getattr ?y ''name'' = Inr (PStr ''f'')
               \<and> param_count ?y = Inr 0
             \<longrightarrow> ly = ''FunctionDef: name='' @ ''f'' @ '', args='' @ str_nat 0 \<and> cy = None"
    by blast
  from lx fx nx px have lx': "lx = ''FunctionDef: name=f, args=0''" "cx = None"
    unfolding l by blast+
  from ly fy ny py have ly': "ly = ''FunctionDef: name=f, args=0''" "cy = None"
    unfolding l by blast+
  from r have "\<exists>nx ny. node_ids st' 1 = Some nx \<and> node_ids st' 4 = Some ny \<and> nx \<noteq> ny
          \<and> NodeStmt nx ''FunctionDef: name=f, args=0'' None \<in> set (body st')
          \<and> NodeStmt ny ''FunctionDef: name=f, args=0'' None \<in> set (body st')"
    unfolding i lx' ly' by blast
  with ok con twin_module_body show ?thesis by blast
qed

end
